theory Spec2Isabelle
  imports Complex_Main "HOL-Library.Word"
begin

section \<open>Numbers, panics and memory\<close>

text \<open>
  The package computes on Go's \<open>float32\<close> (and once on \<open>float64\<close>). Both are
  modelled here by the real numbers. Outside \<open>exp\<close>, \<open>softmaxd\<close> and \<open>Softmax\<close>
  every arithmetic operation is the exact one, so rounding, overflow to infinity,
  underflow and NaN are left out there, and a statement about a number computed there is
  a statement in exact arithmetic.
\<close>

type_synonym float32 = real
type_synonym float64 = real

text \<open>
  A real number \<open>m / 2^k\<close> with \<open>|m| < 2^24\<close> and \<open>k \<le> 149\<close> is a float32 value
  (a significand of 24 bits, no exponent below the least one). When the exact result of
  a float32 operation is such a number, the operation returns it unrounded.
\<close>

definition float32_exact :: "real \<Rightarrow> bool" where
  "float32_exact x \<longleftrightarrow> (\<exists>m k. \<bar>m\<bar> < 2 ^ 24 \<and> k \<le> 149 \<and> x = real_of_int m / 2 ^ k)"

text \<open>
  What \<open>Softmax\<close> returns at the two ends of the unit interval is decided by rounding.
  In \<open>exp\<close>, \<open>softmaxd\<close> and \<open>Softmax\<close> every float32 operation is therefore the
  exact operation followed by the rounding of its result to float32. The rounding and
  \<open>math.Exp\<close> of the standard library are the two fields of an arithmetic \<open>A\<close>, which
  these functions take as a parameter.
\<close>

record arith =
  round32 :: "real \<Rightarrow> real"
  math_Exp :: "real \<Rightarrow> real"

text \<open>
  What the proofs use of float32 arithmetic, for results between 0 and the largest
  float32 value \<open>M\<close>: rounding is monotone and keeps 0, 1, \<open>M\<close> and every value it
  returns; the sum of two float32 values is rounded with a relative error of at most
  \<open>u\<close>; any result is rounded with a relative error of at most \<open>u\<close> plus an absolute
  error of at most \<open>eta\<close> (a quotient may fall below the normal range); \<open>math.Exp\<close>
  returns no negative number. Rounding to the nearest float32 has \<open>u = 2^-24\<close>,
  \<open>eta = 2^-150\<close> and \<open>M = (2 - 2^-23) * 2^127\<close>. Nothing is asked of results above
  \<open>M\<close>, where float32 overflows.
\<close>

definition float32_arith :: "arith \<Rightarrow> real \<Rightarrow> real \<Rightarrow> real \<Rightarrow> bool" where
  "float32_arith A u eta M \<longleftrightarrow>
     0 \<le> u \<and> u < 1 \<and> 0 \<le> eta \<and> 1 \<le> M
     \<and> round32 A 0 = 0 \<and> round32 A 1 = 1 \<and> round32 A M = M
     \<and> (\<forall>a b. 0 \<le> a \<and> a \<le> b \<and> b \<le> M \<longrightarrow> round32 A a \<le> round32 A b)
     \<and> (\<forall>a. 0 \<le> a \<and> a \<le> M \<longrightarrow> round32 A (round32 A a) = round32 A a)
     \<and> (\<forall>a b. 0 \<le> a \<and> 0 \<le> b \<and> a + b \<le> M \<and> round32 A a = a \<and> round32 A b = b \<longrightarrow>
           \<bar>round32 A (a + b) - (a + b)\<bar> \<le> u * (a + b))
     \<and> (\<forall>a. 0 \<le> a \<and> a \<le> M \<longrightarrow> \<bar>round32 A a - a\<bar> \<le> u * a + eta)
     \<and> (\<forall>x. 0 \<le> math_Exp A x)"

text \<open>
  \<open>func exp(x float32) float32 { return float32(math.Exp(float64(x))) }\<close>, and
  \<open>func sqrt(x float32) float32\<close>.
\<close>

definition exp_f32 :: "arith \<Rightarrow> float32 \<Rightarrow> float32" where
  "exp_f32 A x = round32 A (math_Exp A x)"

definition sqrt_f32 :: "float32 \<Rightarrow> float32" where
  "sqrt_f32 x = sqrt x"

text \<open>
  A Go panic ends the call. The package panics with a message of its own (the shape
  mismatch of \<open>DenseLayer.Forward\<close>); the run time panics on an index out of range.
\<close>

datatype panic = Panic string | IndexOutOfRange

text \<open>Indexing a Go slice held as a value: the run time checks the bound.\<close>

definition index :: "'a list \<Rightarrow> nat \<Rightarrow> panic + 'a" where
  "index xs i = (if i < length xs then Inr (xs ! i) else Inl IndexOutOfRange)"

text \<open>
  \<open>strconv.FormatInt(i, 10)\<close> of the standard library: the decimal digits of \<open>i\<close>,
  after a minus sign when \<open>i\<close> is negative.
\<close>

fun digits :: "nat \<Rightarrow> string" where
  "digits n =
     (if n < 10 then [''0123456789'' ! n]
      else digits (n div 10) @ [''0123456789'' ! (n mod 10)])"

definition FormatInt :: "int \<Rightarrow> string" where
  "FormatInt i = (if i < 0 then CHR ''-'' # digits (nat (- i)) else digits (nat i))"

text \<open>
  The buffers that the forward pass and \<open>Softmax\<close> write to are Go slices: a pointer
  into a backing array, a length and a capacity. Two slices may share cells, and the code
  swaps and regrows them, so they are modelled over an explicit memory: one flat list of
  cells, a slice being the address of its first cell with its length and capacity. Fresh
  arrays are allocated at the end of the memory.
\<close>

type_synonym heap = "float32 list"

record slice =
  ptr :: nat
  len :: nat
  cap :: nat

text \<open>A slice of a running program lies inside the memory; \<open>sread\<close> is what it shows.\<close>

definition valid :: "heap \<Rightarrow> slice \<Rightarrow> bool" where
  "valid h s \<longleftrightarrow> len s \<le> cap s \<and> ptr s + cap s \<le> length h"

definition sread :: "heap \<Rightarrow> slice \<Rightarrow> float32 list" where
  "sread h s = take (len s) (drop (ptr s) h)"

text \<open>Two slices whose visible cells do not overlap.\<close>

definition disjoint :: "slice \<Rightarrow> slice \<Rightarrow> bool" where
  "disjoint s t \<longleftrightarrow> ptr s + len s \<le> ptr t \<or> ptr t + len t \<le> ptr s"

text \<open>
  \<open>slices.Grow(s, n)\<close> of the standard library: when the spare capacity is less than
  \<open>n\<close> it is \<open>append(s[:cap(s)], make([]E, n)...)[:len(s)]\<close> with \<open>n\<close> reduced by the
  spare capacity, which copies all \<open>cap(s)\<close> cells of the old array to a fresh array and
  puts zeros behind them; otherwise \<open>s\<close> is returned as it is. (The run time may give
  the fresh array more capacity than asked for; the extra cells are zero as well, and the
  model allocates exactly what is asked.)
\<close>

definition slices_Grow :: "heap \<Rightarrow> slice \<Rightarrow> nat \<Rightarrow> heap \<times> slice" where
  "slices_Grow h s n =
     (if cap s - len s < n then
        (h @ take (cap s) (drop (ptr s) h) @ replicate (n - (cap s - len s)) 0,
         \<lparr>ptr = length h, len = len s, cap = cap s + (n - (cap s - len s))\<rparr>)
      else (h, s))"

section \<open>Fixed8\<close>

text \<open>\<open>type Fixed8 int8\<close>, and \<open>func (x Fixed8) Float32() float32 { return float32(x) / 8 }\<close>.\<close>

type_synonym Fixed8 = "8 word"

definition Fixed8_Float32 :: "Fixed8 \<Rightarrow> float32" where
  "Fixed8_Float32 x = real_of_int (sint x) / 8"

section \<open>The random source\<close>

text \<open>
  \<open>*rand.Rand\<close> of the standard library is the one collaborator of the package. It is
  a state \<open>'r\<close> with the two methods the package calls, each returning the drawn number
  and the next state.
\<close>

record 'r Rand =
  Rand_Float32 :: "'r \<Rightarrow> float32 \<times> 'r"
  Rand_NormFloat64 :: "'r \<Rightarrow> float64 \<times> 'r"

section \<open>DenseLayer\<close>

text \<open>
  \<open>type DenseLayer [][]float32\<close>. The weights are read by the forward pass and written
  only by \<open>InitWeights\<close>, so a layer is held as a value: a list of rows. (The buffers of
  a forward pass are taken not to share cells with the weights.)
\<close>

type_synonym DenseLayer = "float32 list list"

definition NewDenseLayer :: "nat \<Rightarrow> nat \<Rightarrow> DenseLayer" where
  "NewDenseLayer fanIn fanOut = replicate fanIn (replicate fanOut 0)"

text \<open>\<open>return len(l), len(l[0])\<close>: the second component indexes the first row.\<close>

definition DenseLayer_Shape :: "DenseLayer \<Rightarrow> panic + (nat \<times> nat)" where
  "DenseLayer_Shape l =
     (case index l 0 of Inl e \<Rightarrow> Inl e | Inr row \<Rightarrow> Inr (length l, length row))"

definition xavier :: "nat \<Rightarrow> nat \<Rightarrow> float32" where
  "xavier i out = sqrt_f32 (6 / (real i + real out))"

text \<open>
  \<open>DenseLayer.InitWeights\<close>: the inner loop \<open>for i := range row\<close> draws one number for
  each cell of the row, the outer loop \<open>for _, row := range l\<close> takes the rows in order,
  with \<open>fanOut := len(row)\<close> read from each row.
\<close>

fun InitWeights_row :: "'r Rand \<Rightarrow> nat \<Rightarrow> nat \<Rightarrow> float32 list \<Rightarrow> 'r \<Rightarrow> float32 list \<times> 'r" where
  "InitWeights_row R fanIn fanOut [] r = ([], r)"
| "InitWeights_row R fanIn fanOut (w # row) r =
     (case Rand_Float32 R r of (u, r1) \<Rightarrow>
      case InitWeights_row R fanIn fanOut row r1 of (row', r2) \<Rightarrow>
        ((2 * u - 1) * xavier fanIn fanOut # row', r2))"

fun InitWeights_rows :: "'r Rand \<Rightarrow> nat \<Rightarrow> float32 list list \<Rightarrow> 'r \<Rightarrow> float32 list list \<times> 'r" where
  "InitWeights_rows R fanIn [] r = ([], r)"
| "InitWeights_rows R fanIn (row # rows) r =
     (case InitWeights_row R fanIn (length row) row r of (row', r1) \<Rightarrow>
      case InitWeights_rows R fanIn rows r1 of (rows', r2) \<Rightarrow>
        (row' # rows', r2))"

definition DenseLayer_InitWeights :: "'r Rand \<Rightarrow> DenseLayer \<Rightarrow> 'r \<Rightarrow> DenseLayer \<times> 'r" where
  "DenseLayer_InitWeights R l r = InitWeights_rows R (length l) l r"

text \<open>
  \<open>DenseLayer.Forward\<close>. The inner loop \<open>for j := range out { out[j] += l[i][j] * x }\<close>
  runs over the indices \<open>js\<close> of \<open>out\<close>; both \<open>l[i]\<close> and \<open>l[i][j]\<close> are bound-checked.
\<close>

fun Forward_cols :: "DenseLayer \<Rightarrow> nat \<Rightarrow> float32 \<Rightarrow> slice \<Rightarrow> nat list \<Rightarrow> heap \<Rightarrow> panic + heap" where
  "Forward_cols l i x out [] h = Inr h"
| "Forward_cols l i x out (j # js) h =
     (case index l i of Inl e \<Rightarrow> Inl e | Inr row \<Rightarrow>
      case index row j of Inl e \<Rightarrow> Inl e | Inr w \<Rightarrow>
        Forward_cols l i x out js (h[ptr out + j := h ! (ptr out + j) + w * x]))"

text \<open>
  The outer loop \<open>for i, x := range in\<close> runs over the indices \<open>is\<close> of \<open>in\<close>; \<open>x\<close> is
  the cell \<open>in[i]\<close> as it is in memory when iteration \<open>i\<close> starts.
\<close>

fun Forward_rows :: "DenseLayer \<Rightarrow> slice \<Rightarrow> slice \<Rightarrow> nat list \<Rightarrow> heap \<Rightarrow> panic + heap" where
  "Forward_rows l inp out [] h = Inr h"
| "Forward_rows l inp out (i # is) h =
     (case Forward_cols l i (h ! (ptr inp + i)) out [0..<len out] h of
        Inl e \<Rightarrow> Inl e
      | Inr h' \<Rightarrow> Forward_rows l inp out is h')"

definition DenseLayer_Forward :: "DenseLayer \<Rightarrow> heap \<Rightarrow> slice \<Rightarrow> slice \<Rightarrow> panic + (heap \<times> slice)" where
  "DenseLayer_Forward l h inp out =
     (if len inp \<noteq> length l then
        Inl (Panic (''shape mismatch ('' @ FormatInt (int (len inp)) @ '', _)''))
      else case index l 0 of Inl e \<Rightarrow> Inl e | Inr row0 \<Rightarrow>
        if len out \<noteq> length row0 then
          Inl (Panic (''shape mismatch (_, '' @ FormatInt (int (len out)) @ '')''))
        else case Forward_rows l inp out [0..<len inp] h of
               Inl e \<Rightarrow> Inl e
             | Inr h' \<Rightarrow> Inr (h', out))"

section \<open>Activation functions\<close>

text \<open>
  \<open>type activFn struct{ apply, deriv func(float32) float32 }\<close>, the one implementation
  of the interface \<open>ActivFn\<close>; the fields carry the names of the interface's methods.
\<close>

record activFn =
  Apply :: "float32 \<Rightarrow> float32"
  Deriv :: "float32 \<Rightarrow> float32"

definition Ident :: activFn where
  "Ident = \<lparr>Apply = (\<lambda>x. x), Deriv = (\<lambda>x. 1)\<rparr>"

definition LRelu :: activFn where
  "LRelu = \<lparr>Apply = (\<lambda>x. if x < 0 then x / 64 else x),
            Deriv = (\<lambda>x. if x < 0 then 1 / 64 else 1)\<rparr>"

definition Sigmoid :: "arith \<Rightarrow> activFn" where
  "Sigmoid A = \<lparr>Apply = (\<lambda>x. 1 / (1 + exp_f32 A (- x))), Deriv = (\<lambda>x. x * (1 - x))\<rparr>"

text \<open>\<open>func sum\<close> and \<open>func softmaxd\<close>: one pass over the cells of \<open>xs\<close>.\<close>

fun sum_loop :: "heap \<Rightarrow> slice \<Rightarrow> nat list \<Rightarrow> float32 \<Rightarrow> float32" where
  "sum_loop h xs [] s = s"
| "sum_loop h xs (i # is) s = sum_loop h xs is (s + h ! (ptr xs + i))"

definition sum_f32 :: "heap \<Rightarrow> slice \<Rightarrow> float32" where
  "sum_f32 h xs = sum_loop h xs [0..<len xs] 0"

fun softmaxd_loop :: "arith \<Rightarrow> heap \<Rightarrow> slice \<Rightarrow> nat list \<Rightarrow> float32 \<Rightarrow> float32" where
  "softmaxd_loop A h xs [] sp = sp"
| "softmaxd_loop A h xs (i # is) sp =
     softmaxd_loop A h xs is (round32 A (sp + exp_f32 A (h ! (ptr xs + i))))"

definition softmaxd :: "arith \<Rightarrow> heap \<Rightarrow> slice \<Rightarrow> float32" where
  "softmaxd A h xs = softmaxd_loop A h xs [0..<len xs] 0"

text \<open>
  \<open>func Softmax\<close>: \<open>sp\<close> is computed first, then each cell is overwritten in place.
  (When \<open>sp\<close> is zero the quotient of the code is not a number; nothing is stated about
  that case.)
\<close>

fun Softmax_loop :: "arith \<Rightarrow> float32 \<Rightarrow> slice \<Rightarrow> nat list \<Rightarrow> heap \<Rightarrow> heap" where
  "Softmax_loop A sp xs [] h = h"
| "Softmax_loop A sp xs (i # is) h =
     Softmax_loop A sp xs is
       (h[ptr xs + i := round32 A (exp_f32 A (h ! (ptr xs + i)) / sp)])"

definition Softmax :: "arith \<Rightarrow> heap \<Rightarrow> slice \<Rightarrow> heap" where
  "Softmax A h xs = Softmax_loop A (softmaxd A h xs) xs [0..<len xs] h"

section \<open>Model\<close>

text \<open>
  The interface \<open>Layer\<close> has the one implementation \<open>DenseLayer\<close>, so the layers of a
  model are dense layers.
\<close>

record Model =
  Layers :: "DenseLayer list"
  Biases :: "float32 list"
  ActivFn :: "activFn list"

definition AddLayer :: "Model \<Rightarrow> DenseLayer \<Rightarrow> activFn \<Rightarrow> Model" where
  "AddLayer m l a =
     m\<lparr>Layers := Layers m @ [l], Biases := Biases m @ [0], ActivFn := ActivFn m @ [a]\<rparr>"

definition Model_Shape :: "Model \<Rightarrow> panic + (nat \<times> nat)" where
  "Model_Shape m =
     (case index (Layers m) 0 of Inl e \<Rightarrow> Inl e | Inr l0 \<Rightarrow>
      case DenseLayer_Shape l0 of Inl e \<Rightarrow> Inl e | Inr (s0, _) \<Rightarrow>
      case index (Layers m) (length (Layers m) - 1) of Inl e \<Rightarrow> Inl e | Inr l1 \<Rightarrow>
      case DenseLayer_Shape l1 of Inl e \<Rightarrow> Inl e | Inr (_, s1) \<Rightarrow>
        Inr (s0, s1))"

text \<open>
  \<open>Model.InitWeights\<close>: the loop over \<open>m.Biases\<close>, then the loop over \<open>m.Layers\<close>.
  The slices of the model are shared with the caller's, so the call is seen by the caller:
  the model returns the updated model with the next state of the random source.
\<close>

fun InitWeights_biases :: "'r Rand \<Rightarrow> float32 list \<Rightarrow> 'r \<Rightarrow> float32 list \<times> 'r" where
  "InitWeights_biases R [] r = ([], r)"
| "InitWeights_biases R (b # bs) r =
     (case Rand_NormFloat64 R r of (z, r1) \<Rightarrow>
      case InitWeights_biases R bs r1 of (bs', r2) \<Rightarrow>
        (z / 64 # bs', r2))"

fun InitWeights_layers :: "'r Rand \<Rightarrow> DenseLayer list \<Rightarrow> 'r \<Rightarrow> DenseLayer list \<times> 'r" where
  "InitWeights_layers R [] r = ([], r)"
| "InitWeights_layers R (l # ls) r =
     (case DenseLayer_InitWeights R l r of (l', r1) \<Rightarrow>
      case InitWeights_layers R ls r1 of (ls', r2) \<Rightarrow>
        (l' # ls', r2))"

definition Model_InitWeights :: "'r Rand \<Rightarrow> Model \<Rightarrow> 'r \<Rightarrow> Model \<times> 'r" where
  "Model_InitWeights R m r =
     (case InitWeights_biases R (Biases m) r of (bs, r1) \<Rightarrow>
      case InitWeights_layers R (Layers m) r1 of (ls, r2) \<Rightarrow>
        (m\<lparr>Layers := ls, Biases := bs\<rparr>, r2))"

text \<open>
  \<open>Model.Forward\<close>. First the resizing of \<open>out\<close> to the layer's \<open>fanOut\<close>:
  \<open>out[:n]\<close> when \<open>out\<close> is longer, \<open>slices.Grow(out, n-len(out))[:n]\<close> when it is
  shorter.
\<close>

definition Forward_resize :: "heap \<Rightarrow> slice \<Rightarrow> nat \<Rightarrow> heap \<times> slice" where
  "Forward_resize h out n =
     (if n < len out then (h, out\<lparr>len := n\<rparr>)
      else if n > len out then
        (case slices_Grow h out (n - len out) of (h', s) \<Rightarrow> (h', s\<lparr>len := n\<rparr>))
      else (h, out))"

text \<open>The loop \<open>for i, x := range out { out[i] = a.Apply(x + b) }\<close>.\<close>

fun Forward_activ :: "activFn \<Rightarrow> float32 \<Rightarrow> slice \<Rightarrow> nat list \<Rightarrow> heap \<Rightarrow> heap" where
  "Forward_activ a b out [] h = h"
| "Forward_activ a b out (j # js) h =
     Forward_activ a b out js (h[ptr out + j := Apply a (h ! (ptr out + j) + b)])"

text \<open>One pass of the loop body, up to the test \<open>i++; i < len(m.Layers)\<close>.\<close>

definition Forward_stage :: "Model \<Rightarrow> nat \<Rightarrow> heap \<Rightarrow> slice \<Rightarrow> slice \<Rightarrow> panic + (heap \<times> slice)" where
  "Forward_stage m i h inp out =
     (case index (Layers m) i of Inl e \<Rightarrow> Inl e | Inr l \<Rightarrow>
      case DenseLayer_Shape l of Inl e \<Rightarrow> Inl e | Inr (_, fanOut) \<Rightarrow>
      case Forward_resize h out fanOut of (h1, out1) \<Rightarrow>
      case DenseLayer_Forward l h1 inp out1 of Inl e \<Rightarrow> Inl e | Inr (h2, out2) \<Rightarrow>
      case index (Biases m) i of Inl e \<Rightarrow> Inl e | Inr b \<Rightarrow>
      case index (ActivFn m) i of Inl e \<Rightarrow> Inl e | Inr a \<Rightarrow>
        Inr (Forward_activ a b out2 [0..<len out2] h2, out2))"

text \<open>
  The loop \<open>for i := 0; ; { ... }\<close>: after a pass, \<open>in, out = out, in\<close> and the next
  pass, or \<open>return out\<close> after the last layer.
\<close>

function Forward_loop :: "Model \<Rightarrow> nat \<Rightarrow> heap \<Rightarrow> slice \<Rightarrow> slice \<Rightarrow> panic + (heap \<times> slice)" where
  "Forward_loop m i h inp out =
     (case Forward_stage m i h inp out of
        Inl e \<Rightarrow> Inl e
      | Inr (h', out') \<Rightarrow>
          if Suc i < length (Layers m) then Forward_loop m (Suc i) h' out' inp
          else Inr (h', out'))"
  by pat_completeness auto
termination
  by (relation "measure (\<lambda>(m, i, h, inp, out). length (Layers m) - i)") auto

definition Model_Forward :: "Model \<Rightarrow> heap \<Rightarrow> slice \<Rightarrow> slice \<Rightarrow> panic + (heap \<times> slice)" where
  "Model_Forward m h inp out = Forward_loop m 0 h inp out"

section \<open>Auxiliary notions for the proofs\<close>

text \<open>
  Each in-place loop of the package overwrites the cells \<open>p + j\<close>, for the indices
  \<open>j\<close> it runs over, with a function of the index and of the cell's content.
\<close>

definition upd_cells :: "nat \<Rightarrow> (nat \<Rightarrow> float32 \<Rightarrow> float32) \<Rightarrow> nat list \<Rightarrow> heap \<Rightarrow> heap" where
  "upd_cells p f js h = fold (\<lambda>j g. g[p + j := f j (g ! (p + j))]) js h"

text \<open>
  The first \<open>n\<close> numbers that a method \<open>f\<close> of the random source returns, drawn one
  after the other from the state \<open>r\<close>, with the state they leave.
\<close>

fun draws :: "('r \<Rightarrow> 'a \<times> 'r) \<Rightarrow> nat \<Rightarrow> 'r \<Rightarrow> 'a list \<times> 'r" where
  "draws f 0 r = ([], r)"
| "draws f (Suc n) r =
     (case f r of (x, r1) \<Rightarrow> case draws f n r1 of (xs, r2) \<Rightarrow> (x # xs, r2))"

text \<open>
  The Xavier factor of every cell of a layer, in the order of the rows: the factor of a
  cell is \<open>xavier(fanIn, fanOut)\<close> with \<open>fanOut\<close> the length of the cell's row.
\<close>

definition scales :: "DenseLayer \<Rightarrow> float32 list" where
  "scales l = concat (map (\<lambda>row. replicate (length row) (xavier (length l) (length row))) l)"

text \<open>
  A small deterministic random source for the examples: its state is a counter, the
  uniform numbers cycle through 0, 1/4, 1/2, 3/4.
\<close>

definition counter_source :: "nat Rand" where
  "counter_source =
     \<lparr>Rand_Float32 = (\<lambda>n. (real (n mod 4) / 4, Suc n)),
      Rand_NormFloat64 = (\<lambda>n. (real n + 1, n + 2))\<rparr>"

text \<open>
  A run of \<open>softmaxd\<close> from the partial sum \<open>sp\<close> over the values \<open>vs\<close> does not
  overflow: no \<open>math.Exp\<close> and no exact sum that the loop rounds exceeds the largest
  float32 value \<open>M\<close>.
\<close>

fun no_overflow :: "arith \<Rightarrow> real \<Rightarrow> real \<Rightarrow> real list \<Rightarrow> bool" where
  "no_overflow A M sp [] = True"
| "no_overflow A M sp (x # xs) =
     (math_Exp A x \<le> M \<and> sp + exp_f32 A x \<le> M
      \<and> no_overflow A M (round32 A (sp + exp_f32 A x)) xs)"

text \<open>
  An arithmetic for the examples: exact, except where rounding to the nearest float32
  decides what \<open>Softmax\<close> returns. The reals strictly between 1 and \<open>1 + 2^-24\<close> are
  rounded to 1, and the positive reals below \<open>2^-150\<close> are rounded to 0, as float32
  rounds them.
\<close>

definition coarse32 :: arith where
  "coarse32 =
     \<lparr>round32 = (\<lambda>a. if 1 < a \<and> a < 1 + 1 / 2 ^ 24 then 1
                      else if 0 < a \<and> a < 1 / 2 ^ 150 then 0 else a),
      math_Exp = exp\<rparr>"

text \<open>
  The forward pass as the specification words it: stage \<open>i\<close> maps its input vector to
  the vector whose element \<open>j\<close> is \<open>ActivFn[i].Apply\<close> of the weighted sum of the
  input for column \<open>j\<close> plus \<open>Biases[i]\<close>; the stages are chained, the output of one
  being the input of the next, and the last output is the result.
\<close>

definition stage_spec :: "DenseLayer \<Rightarrow> float32 \<Rightarrow> activFn \<Rightarrow> float32 list \<Rightarrow> float32 list" where
  "stage_spec l b a xs =
     map (\<lambda>j. Apply a ((\<Sum>k\<leftarrow>[0..<length xs]. xs ! k * l ! k ! j) + b)) [0..<length (hd l)]"

definition Forward_spec :: "Model \<Rightarrow> float32 list \<Rightarrow> float32 list" where
  "Forward_spec m xs =
     fold (\<lambda>i v. stage_spec (Layers m ! i) (Biases m ! i) (ActivFn m ! i) v)
       [0..<length (Layers m)] xs"

section \<open>In-place loops\<close>

lemma upd_cells_Nil: "upd_cells p f [] h = h"
  by (simp add: upd_cells_def)

lemma upd_cells_Cons: "upd_cells p f (j # js) h = upd_cells p f js (h[p + j := f j (h ! (p + j))])"
  by (simp add: upd_cells_def)

lemma length_upd_cells: "length (upd_cells p f js h) = length h"
  by (induction js arbitrary: h) (simp_all add: upd_cells_Nil upd_cells_Cons)

lemma nth_upd_cells:
  "distinct js \<Longrightarrow> a < length h \<Longrightarrow>
   upd_cells p f js h ! a = (if p \<le> a \<and> a - p \<in> set js then f (a - p) (h ! a) else h ! a)"
proof (induction js arbitrary: h)
  case Nil
  then show ?case by (simp add: upd_cells_Nil)
next
  case (Cons j js)
  let ?g = "h[p + j := f j (h ! (p + j))]"
  have len: "a < length ?g" using Cons.prems by simp
  have d: "distinct js" and nj: "j \<notin> set js" using Cons.prems by simp_all
  have step: "upd_cells p f (j # js) h ! a =
      (if p \<le> a \<and> a - p \<in> set js then f (a - p) (?g ! a) else ?g ! a)"
    unfolding upd_cells_Cons using Cons.IH [OF d len] .
  show ?case
  proof (cases "a = p + j")
    case True
    then show ?thesis using step nj Cons.prems by simp
  next
    case False
    then have "?g ! a = h ! a" by simp
    moreover have "a - p \<in> set (j # js) \<and> p \<le> a \<longleftrightarrow> a - p \<in> set js \<and> p \<le> a"
      using False by auto
    ultimately show ?thesis using step by auto
  qed
qed

lemma Forward_cols_eq:
  "i < length l \<Longrightarrow> \<forall>j\<in>set js. j < length (l ! i) \<Longrightarrow>
   Forward_cols l i x out js h = Inr (upd_cells (ptr out) (\<lambda>j v. v + l ! i ! j * x) js h)"
  by (induction js arbitrary: h) (simp_all add: upd_cells_Nil upd_cells_Cons index_def)

lemma Forward_activ_eq:
  "Forward_activ a b out js h = upd_cells (ptr out) (\<lambda>j v. Apply a (v + b)) js h"
  by (induction js arbitrary: h) (simp_all add: upd_cells_Nil upd_cells_Cons)

lemma Softmax_loop_eq:
  "Softmax_loop A sp xs js h =
     upd_cells (ptr xs) (\<lambda>j v. round32 A (exp_f32 A v / sp)) js h"
  by (induction js arbitrary: h) (simp_all add: upd_cells_Nil upd_cells_Cons)

lemma Forward_rows_total:
  "\<forall>i\<in>set is. i < length l \<Longrightarrow> \<forall>row\<in>set l. len out \<le> length row \<Longrightarrow>
   \<exists>h'. Forward_rows l inp out is h = Inr h' \<and> length h' = length h"
proof (induction "is" arbitrary: h)
  case Nil
  then show ?case by simp
next
  case (Cons i "is")
  have i: "i < length l" using Cons.prems by simp
  then have "len out \<le> length (l ! i)" using Cons.prems(2) by simp
  then have cols: "\<forall>j\<in>set [0..<len out]. j < length (l ! i)" by simp
  let ?h1 = "upd_cells (ptr out) (\<lambda>j v. v + l ! i ! j * h ! (ptr inp + i)) [0..<len out] h"
  have c: "Forward_cols l i (h ! (ptr inp + i)) out [0..<len out] h = Inr ?h1"
    by (rule Forward_cols_eq [OF i cols])
  obtain h' where "Forward_rows l inp out is ?h1 = Inr h'" "length h' = length ?h1"
    using Cons.IH [of ?h1] Cons.prems by auto
  then show ?case using c by (simp add: length_upd_cells)
qed

lemma Forward_rows_eq:
  assumes "distinct is" and "\<forall>i\<in>set is. i < length l \<and> i < len inp"
    and "\<forall>row\<in>set l. len out \<le> length row"
    and "disjoint inp out"
    and "ptr out + len out \<le> length h" and "ptr inp + len inp \<le> length h"
  shows "Forward_rows l inp out is h =
     Inr (upd_cells (ptr out) (\<lambda>j v. v + (\<Sum>i\<leftarrow>is. l ! i ! j * h ! (ptr inp + i))) [0..<len out] h)"
  using assms
proof (induction "is" arbitrary: h)
  case Nil
  have "upd_cells (ptr out) (\<lambda>j v. v + 0) [0..<len out] h = h"
    by (rule nth_equalityI) (simp_all add: length_upd_cells nth_upd_cells)
  then show ?case by simp
next
  case (Cons i "is")
  let ?p = "ptr out" and ?n = "len out"
  let ?x = "h ! (ptr inp + i)"
  let ?h1 = "upd_cells ?p (\<lambda>j v. v + l ! i ! j * ?x) [0..<?n] h"
  have i: "i < length l" using Cons.prems by simp
  then have "?n \<le> length (l ! i)" using Cons.prems(3) by simp
  then have cols: "\<forall>j\<in>set [0..<?n]. j < length (l ! i)" by simp
  have c: "Forward_cols l i ?x out [0..<?n] h = Inr ?h1"
    by (rule Forward_cols_eq [OF i cols])
  have len1: "length ?h1 = length h" by (simp add: length_upd_cells)
  have inp_same: "?h1 ! (ptr inp + k) = h ! (ptr inp + k)" if "k \<in> set is" for k
  proof -
    have k: "k < len inp" using that Cons.prems(2) by simp
    then have "ptr inp + k < length h" using Cons.prems(6) by simp
    moreover have "\<not> (?p \<le> ptr inp + k \<and> ptr inp + k - ?p < ?n)"
      using k Cons.prems(4) unfolding disjoint_def by auto
    ultimately show ?thesis by (auto simp add: nth_upd_cells)
  qed
  have sums: "(\<Sum>k\<leftarrow>is. l ! k ! j * ?h1 ! (ptr inp + k)) = (\<Sum>k\<leftarrow>is. l ! k ! j * h ! (ptr inp + k))" for j
    by (rule arg_cong [where f = sum_list]) (simp add: inp_same)
  have ih: "Forward_rows l inp out is ?h1 =
     Inr (upd_cells ?p (\<lambda>j v. v + (\<Sum>k\<leftarrow>is. l ! k ! j * ?h1 ! (ptr inp + k))) [0..<?n] ?h1)"
    using Cons.prems by (intro Cons.IH) (simp_all add: len1)
  have "upd_cells ?p (\<lambda>j v. v + (\<Sum>k\<leftarrow>is. l ! k ! j * h ! (ptr inp + k))) [0..<?n] ?h1
      = upd_cells ?p (\<lambda>j v. v + (\<Sum>k\<leftarrow>i # is. l ! k ! j * h ! (ptr inp + k))) [0..<?n] h"
    by (rule nth_equalityI) (simp_all add: length_upd_cells nth_upd_cells add.assoc)
  then show ?case using c ih by (simp add: sums)
qed

lemma sread_map:
  "ptr s + len s \<le> length h \<Longrightarrow> sread h s = map (\<lambda>i. h ! (ptr s + i)) [0..<len s]"
  by (rule nth_equalityI) (simp_all add: sread_def)

lemma upt_2: "[0..<2] = [0, Suc 0]"
  by (simp add: numeral_2_eq_2)

section \<open>DenseLayer.Forward\<close>

lemma DenseLayer_Shape_Inr:
  "DenseLayer_Shape l = Inr (fanIn, fanOut) \<longleftrightarrow> l \<noteq> [] \<and> fanIn = length l \<and> fanOut = length (hd l)"
  by (cases l) (auto simp: DenseLayer_Shape_def index_def)

lemma DenseLayer_Shape_Inl:
  "DenseLayer_Shape l = Inl e \<longleftrightarrow> l = [] \<and> e = IndexOutOfRange"
  by (cases l) (auto simp: DenseLayer_Shape_def index_def)

lemma sum_list_upt_lessThan: "(\<Sum>i\<leftarrow>[0..<n]. f i) = (\<Sum>i<n. f i)"
  by (simp add: interv_sum_list_conv_sum_set_nat atLeast0LessThan)

lemma DenseLayer_Forward_eq:
  assumes l: "l \<noteq> []"
    and rect: "\<forall>row\<in>set l. len out \<le> length row"
    and lens: "len inp = length l" "len out = length (hd l)"
    and mem: "ptr inp + len inp \<le> length h" "ptr out + len out \<le> length h"
    and dis: "disjoint inp out"
  shows "DenseLayer_Forward l h inp out =
     Inr (upd_cells (ptr out) (\<lambda>j v. v + (\<Sum>i<len inp. h ! (ptr inp + i) * l ! i ! j)) [0..<len out] h, out)"
proof -
  have idx: "index l 0 = Inr (hd l)"
    using l by (cases l) (simp_all add: index_def)
  have ix: "\<forall>i\<in>set [0..<len inp]. i < length l \<and> i < len inp"
    using lens(1) by simp
  have rows: "Forward_rows l inp out [0..<len inp] h =
     Inr (upd_cells (ptr out) (\<lambda>j v. v + (\<Sum>i\<leftarrow>[0..<len inp]. l ! i ! j * h ! (ptr inp + i))) [0..<len out] h)"
    by (rule Forward_rows_eq [OF distinct_upt ix rect dis mem(2) mem(1)])
  have "(\<Sum>i\<leftarrow>[0..<len inp]. l ! i ! j * h ! (ptr inp + i)) = (\<Sum>i<len inp. h ! (ptr inp + i) * l ! i ! j)" for j
    unfolding sum_list_upt_lessThan by (simp add: mult.commute)
  then have rows': "Forward_rows l inp out [0..<len inp] h =
     Inr (upd_cells (ptr out) (\<lambda>j v. v + (\<Sum>i<len inp. h ! (ptr inp + i) * l ! i ! j)) [0..<len out] h)"
    using rows by simp
  show ?thesis
    unfolding DenseLayer_Forward_def idx rows' using lens by simp
qed

text \<open>
  C2. For a layer of shape \<open>(fanIn, fanOut)\<close> with rows of equal length, an input of
  length \<open>fanIn\<close> and an output buffer of length \<open>fanOut\<close> that does not overlap
  the input, \<open>DenseLayer.Forward\<close> returns the very slice it was given as \<open>out\<close>;
  each cell \<open>j\<close> of it then holds its initial content plus the sum over \<open>i\<close> of
  \<open>input[i] * weight[i][j]\<close>, and no other cell of the memory has changed. The
  witness is the identity layer of shape (2,2) on the input [5, 7] with the output seeded
  with [1, 1], which gives [6, 8].
\<close>

theorem DenseLayer_Forward_accumulates:
  assumes "DenseLayer_Shape l = Inr (fanIn, fanOut)"
    and "\<forall>row\<in>set l. length row = fanOut"
    and "len inp = fanIn" and "len out = fanOut"
    and "valid h inp" and "valid h out" and "disjoint inp out"
  shows "\<exists>h'. DenseLayer_Forward l h inp out = Inr (h', out)
     \<and> length h' = length h
     \<and> (\<forall>j<fanOut. h' ! (ptr out + j) = h ! (ptr out + j) + (\<Sum>i<fanIn. h ! (ptr inp + i) * l ! i ! j))
     \<and> (\<forall>a<length h. \<not> (ptr out \<le> a \<and> a < ptr out + fanOut) \<longrightarrow> h' ! a = h ! a)"
proof -
  let ?h' = "upd_cells (ptr out) (\<lambda>j v. v + (\<Sum>i<len inp. h ! (ptr inp + i) * l ! i ! j)) [0..<len out] h"
  have mem: "ptr inp + len inp \<le> length h" "ptr out + len out \<le> length h"
    using assms(5,6) by (simp_all add: valid_def)
  have l: "l \<noteq> []" "fanIn = length l" "fanOut = length (hd l)"
    using assms(1) by (simp_all add: DenseLayer_Shape_Inr)
  have rect: "\<forall>row\<in>set l. len out \<le> length row"
    using assms(2,4) by simp
  have lens: "len inp = length l" "len out = length (hd l)"
    using assms(3,4) l by simp_all
  have run: "DenseLayer_Forward l h inp out = Inr (?h', out)"
    by (rule DenseLayer_Forward_eq [OF l(1) rect lens mem assms(7)])
  have "length ?h' = length h"
    by (simp add: length_upd_cells)
  moreover have "\<forall>j<fanOut. ?h' ! (ptr out + j) = h ! (ptr out + j) + (\<Sum>i<fanIn. h ! (ptr inp + i) * l ! i ! j)"
    using mem assms(3,4) by (auto simp add: nth_upd_cells)
  moreover have "\<forall>a<length h. \<not> (ptr out \<le> a \<and> a < ptr out + fanOut) \<longrightarrow> ?h' ! a = h ! a"
    using assms(4) by (auto simp add: nth_upd_cells)
  ultimately show ?thesis using run by blast
qed

theorem DenseLayer_Forward_accumulates_witness:
  "DenseLayer_Shape [[1, 0], [0, 1]] = Inr (2, 2)
   \<and> map length [[1, 0], [0, 1 :: float32]] = [2, 2]
   \<and> valid [5, 7, 1, 1] \<lparr>ptr = 0, len = 2, cap = 2\<rparr>
   \<and> valid [5, 7, 1, 1] \<lparr>ptr = 2, len = 2, cap = 2\<rparr>
   \<and> disjoint \<lparr>ptr = 0, len = 2, cap = 2\<rparr> \<lparr>ptr = 2, len = 2, cap = 2\<rparr>
   \<and> (\<exists>h'. DenseLayer_Forward [[1, 0], [0, 1]] [5, 7, 1, 1]
              \<lparr>ptr = 0, len = 2, cap = 2\<rparr> \<lparr>ptr = 2, len = 2, cap = 2\<rparr>
            = Inr (h', \<lparr>ptr = 2, len = 2, cap = 2\<rparr>)
          \<and> sread h' \<lparr>ptr = 2, len = 2, cap = 2\<rparr> = [6, 8])"
proof -
  let ?l = "[[1, 0], [0, 1 :: float32]]" and ?h = "[5, 7, 1, 1 :: float32]"
  let ?inp = "\<lparr>ptr = 0, len = 2, cap = 2\<rparr>" and ?out = "\<lparr>ptr = 2, len = 2, cap = 2\<rparr>"
  have a1: "DenseLayer_Shape ?l = Inr (2, 2)"
    by (simp add: DenseLayer_Shape_def index_def)
  have a2: "\<forall>row\<in>set ?l. length row = 2" by simp
  have a3: "len ?inp = 2" "len ?out = 2" by simp_all
  have a4: "valid ?h ?inp" "valid ?h ?out" by (simp_all add: valid_def)
  have a5: "disjoint ?inp ?out" by (simp add: disjoint_def)
  obtain h' where run: "DenseLayer_Forward ?l ?h ?inp ?out = Inr (h', ?out)"
    and n: "length h' = length ?h"
    and cells: "\<forall>j<2. h' ! (ptr ?out + j) = ?h ! (ptr ?out + j) + (\<Sum>i<2. ?h ! (ptr ?inp + i) * ?l ! i ! j)"
    using DenseLayer_Forward_accumulates [OF a1 a2 a3 a4 a5] by blast
  have "h' ! (2 + 0) = 6" "h' ! (2 + Suc 0) = 8"
    using cells by (simp_all add: numeral_2_eq_2 lessThan_Suc)
  moreover have "sread h' ?out = map (\<lambda>i. h' ! (ptr ?out + i)) [0..<len ?out]"
    using n by (intro sread_map) simp
  ultimately have "sread h' ?out = [6, 8]"
    by (simp add: upt_2 eval_nat_numeral)
  then show ?thesis using a1 a4 a5 run by simp
qed

text \<open>
  When the two buffers are the same cells the loop reads cells it has already written:
  on \<open>in = out = [1, 1]\<close> and the weights \<open>[[0, 1], [1, 0]]\<close> the result is
  \<open>[3, 2]\<close>, not the \<open>[2, 2]\<close> of the formula.
\<close>

lemma DenseLayer_Forward_overlap_example:
  "DenseLayer_Forward [[0, 1], [1, 0]] [1, 1] \<lparr>ptr = 0, len = 2, cap = 2\<rparr> \<lparr>ptr = 0, len = 2, cap = 2\<rparr>
     = Inr ([3, 2], \<lparr>ptr = 0, len = 2, cap = 2\<rparr>)"
  by (simp add: DenseLayer_Forward_def index_def upt_2)

declare digits.simps [simp del]

lemma digit_char_not_underscore: "d < 10 \<Longrightarrow> ''0123456789'' ! d \<noteq> CHR ''_''"
proof -
  assume "d < 10"
  then have "d \<in> {0, 1, 2, 3, 4, 5, 6, 7, 8, 9}" by auto
  then show ?thesis by auto
qed

lemma digits_hd: "digits n \<noteq> [] \<and> hd (digits n) \<noteq> CHR ''_''"
proof (induction n rule: digits.induct)
  case (1 n)
  show ?case
  proof (cases "n < 10")
    case True
    then show ?thesis
      using digit_char_not_underscore [of n] by (subst (1 2) digits.simps) simp
  next
    case False
    then show ?thesis
      using "1.IH" by (subst (1 2) digits.simps) simp
  qed
qed

lemma FormatInt_hd: "\<exists>c cs. FormatInt i = c # cs \<and> c \<noteq> CHR ''_''"
proof (cases "i < 0")
  case True
  then show ?thesis by (simp add: FormatInt_def)
next
  case False
  then show ?thesis
    using digits_hd [of "nat i"] by (cases "digits (nat i)") (simp_all add: FormatInt_def)
qed

lemma shape_messages_differ:
  "''shape mismatch ('' @ FormatInt a @ '', _)'' \<noteq> ''shape mismatch (_, '' @ FormatInt b @ '')''"
  using FormatInt_hd [of a] by auto

lemma digit_char_inj:
  "a < 10 \<Longrightarrow> b < 10 \<Longrightarrow> ''0123456789'' ! a = ''0123456789'' ! b \<Longrightarrow> a = b"
proof -
  have "distinct ''0123456789''" by simp
  moreover have "length ''0123456789'' = 10" by simp
  ultimately show "a < 10 \<Longrightarrow> b < 10 \<Longrightarrow> ''0123456789'' ! a = ''0123456789'' ! b \<Longrightarrow> a = b"
    by (metis nth_eq_iff_index_eq)
qed

lemma length_digits: "length (digits n) = 1 \<longleftrightarrow> n < 10"
proof (cases "n < 10")
  case True
  then show ?thesis by (subst digits.simps) simp
next
  case False
  have "digits (n div 10) \<noteq> []"
    using digits_hd by blast
  then have "length (digits (n div 10)) \<noteq> 0" by simp
  then show ?thesis
    using False by (subst digits.simps) simp
qed

lemma digits_inj: "digits n = digits m \<Longrightarrow> n = m"
proof (induction n arbitrary: m rule: digits.induct)
  case (1 n)
  have same: "n < 10 \<longleftrightarrow> m < 10"
    using "1.prems" length_digits [of n] length_digits [of m] by simp
  show ?case
  proof (cases "n < 10")
    case True
    then have "m < 10" using same by simp
    then have "[''0123456789'' ! n] = [''0123456789'' ! m]"
      using "1.prems" True by (subst (asm) (1 2) digits.simps) simp
    then show ?thesis
      using True \<open>m < 10\<close> digit_char_inj by blast
  next
    case False
    then have m: "\<not> m < 10" using same by simp
    have "digits (n div 10) @ [''0123456789'' ! (n mod 10)]
        = digits (m div 10) @ [''0123456789'' ! (m mod 10)]"
      using "1.prems" False m by (subst (asm) (1 2) digits.simps) simp
    then have d: "digits (n div 10) = digits (m div 10)"
      and c: "''0123456789'' ! (n mod 10) = ''0123456789'' ! (m mod 10)"
      by simp_all
    have "n div 10 = m div 10"
      using "1.IH" False d by simp
    moreover have "n mod 10 = m mod 10"
      using c digit_char_inj [of "n mod 10" "m mod 10"] by simp
    ultimately show ?thesis
      by (metis div_mult_mod_eq)
  qed
qed

lemma FormatInt_inj_nat: "FormatInt (int a) = FormatInt (int b) \<Longrightarrow> a = b"
  by (simp add: FormatInt_def digits_inj)

lemma shape_messages_inj:
  "''shape mismatch ('' @ FormatInt (int a) @ '', _)'' = ''shape mismatch ('' @ FormatInt (int b) @ '', _)'' \<Longrightarrow> a = b"
  "''shape mismatch (_, '' @ FormatInt (int a) @ '')'' = ''shape mismatch (_, '' @ FormatInt (int b) @ '')'' \<Longrightarrow> a = b"
  by (simp_all add: FormatInt_inj_nat)

text \<open>
  C3. For a layer of shape \<open>(fanIn, fanOut)\<close> with rows of equal length,
  \<open>DenseLayer.Forward\<close> panics exactly when the input's length differs from
  \<open>fanIn\<close> or the output's length differs from \<open>fanOut\<close>. The message names the
  side by the place of the number, \<open>shape mismatch (n, _)\<close> for an input of length
  \<open>n\<close> and \<open>shape mismatch (_, n)\<close> for an output of length \<open>n\<close>, the input
  being checked first; no message of one kind is a message of the other, and messages
  for different lengths differ. When both lengths match the call returns.
\<close>

theorem DenseLayer_Forward_shape_mismatch:
  assumes "DenseLayer_Shape l = Inr (fanIn, fanOut)"
    and "\<forall>row\<in>set l. length row = fanOut"
  shows "(len inp \<noteq> fanIn \<longrightarrow>
        DenseLayer_Forward l h inp out =
          Inl (Panic (''shape mismatch ('' @ FormatInt (int (len inp)) @ '', _)'')))
     \<and> (len inp = fanIn \<and> len out \<noteq> fanOut \<longrightarrow>
        DenseLayer_Forward l h inp out =
          Inl (Panic (''shape mismatch (_, '' @ FormatInt (int (len out)) @ '')'')))
     \<and> (len inp = fanIn \<and> len out = fanOut \<longrightarrow>
        (\<exists>h'. DenseLayer_Forward l h inp out = Inr (h', out)))
     \<and> ((\<exists>e. DenseLayer_Forward l h inp out = Inl e) \<longleftrightarrow> len inp \<noteq> fanIn \<or> len out \<noteq> fanOut)
     \<and> (\<forall>a b. ''shape mismatch ('' @ FormatInt a @ '', _)'' \<noteq> ''shape mismatch (_, '' @ FormatInt b @ '')'')
     \<and> (\<forall>a b. ''shape mismatch ('' @ FormatInt (int a) @ '', _)''
              = ''shape mismatch ('' @ FormatInt (int b) @ '', _)'' \<longrightarrow> a = b)
     \<and> (\<forall>a b. ''shape mismatch (_, '' @ FormatInt (int a) @ '')''
              = ''shape mismatch (_, '' @ FormatInt (int b) @ '')'' \<longrightarrow> a = b)"
proof -
  have l: "l \<noteq> []" "fanIn = length l" "fanOut = length (hd l)"
    using assms(1) by (simp_all add: DenseLayer_Shape_Inr)
  have idx: "index l 0 = Inr (hd l)"
    using l(1) by (cases l) (simp_all add: index_def)
  have c1: "len inp \<noteq> fanIn \<longrightarrow>
        DenseLayer_Forward l h inp out =
          Inl (Panic (''shape mismatch ('' @ FormatInt (int (len inp)) @ '', _)''))"
    unfolding DenseLayer_Forward_def l(2) by simp
  have c2: "len inp = fanIn \<and> len out \<noteq> fanOut \<longrightarrow>
        DenseLayer_Forward l h inp out =
          Inl (Panic (''shape mismatch (_, '' @ FormatInt (int (len out)) @ '')''))"
    unfolding DenseLayer_Forward_def idx l(2,3) by simp
  have c3: "len inp = fanIn \<and> len out = fanOut \<longrightarrow>
        (\<exists>h'. DenseLayer_Forward l h inp out = Inr (h', out))"
  proof
    assume a: "len inp = fanIn \<and> len out = fanOut"
    have "\<forall>i\<in>set [0..<len inp]. i < length l"
      using a l(2) by simp
    moreover have "\<forall>row\<in>set l. len out \<le> length row"
      using a assms(2) by simp
    ultimately obtain h' where "Forward_rows l inp out [0..<len inp] h = Inr h'"
      using Forward_rows_total by blast
    then have "DenseLayer_Forward l h inp out = Inr (h', out)"
      unfolding DenseLayer_Forward_def idx using a l(2,3) by simp
    then show "\<exists>h'. DenseLayer_Forward l h inp out = Inr (h', out)" ..
  qed
  have c4: "(\<exists>e. DenseLayer_Forward l h inp out = Inl e) \<longleftrightarrow> len inp \<noteq> fanIn \<or> len out \<noteq> fanOut"
    using c1 c2 c3 by (cases "len inp = fanIn"; cases "len out = fanOut") auto
  have c5: "\<forall>a b. ''shape mismatch ('' @ FormatInt (int a) @ '', _)''
              = ''shape mismatch ('' @ FormatInt (int b) @ '', _)'' \<longrightarrow> a = b"
    using shape_messages_inj(1) by blast
  have c6: "\<forall>a b. ''shape mismatch (_, '' @ FormatInt (int a) @ '')''
              = ''shape mismatch (_, '' @ FormatInt (int b) @ '')'' \<longrightarrow> a = b"
    using shape_messages_inj(2) by blast
  show ?thesis
    using c1 c2 c3 c4 c5 c6 shape_messages_differ by blast
qed

lemmas run_simps = Model_Forward_def Forward_loop.simps Forward_stage_def index_def
  DenseLayer_Shape_def Forward_resize_def slices_Grow_def DenseLayer_Forward_def AddLayer_def
  Ident_def digits.simps FormatInt_def

theorem DenseLayer_Forward_shape_mismatch_witness:
  "DenseLayer_Shape [[1, 0], [0, 1]] = Inr (2, 2)
   \<and> map length [[1, 0], [0, 1 :: float32]] = [2, 2]
   \<and> DenseLayer_Forward [[1, 0], [0, 1]] [5, 7, 0, 0, 0]
        \<lparr>ptr = 0, len = 1, cap = 2\<rparr> \<lparr>ptr = 2, len = 2, cap = 3\<rparr>
      = Inl (Panic ''shape mismatch (1, _)'')
   \<and> DenseLayer_Forward [[1, 0], [0, 1]] [5, 7, 0, 0, 0]
        \<lparr>ptr = 0, len = 2, cap = 2\<rparr> \<lparr>ptr = 2, len = 3, cap = 3\<rparr>
      = Inl (Panic ''shape mismatch (_, 3)'')
   \<and> (\<exists>h'. DenseLayer_Forward [[1, 0], [0, 1]] [5, 7, 0, 0, 0]
        \<lparr>ptr = 0, len = 2, cap = 2\<rparr> \<lparr>ptr = 2, len = 2, cap = 3\<rparr>
      = Inr (h', \<lparr>ptr = 2, len = 2, cap = 3\<rparr>))"
proof -
  let ?l = "[[1, 0], [0, 1 :: float32]]" and ?h = "[5, 7, 0, 0, 0 :: float32]"
  have a1: "DenseLayer_Shape ?l = Inr (2, 2)"
    by (simp add: DenseLayer_Shape_def index_def)
  have a2: "\<forall>row\<in>set ?l. length row = 2" by simp
  note t = DenseLayer_Forward_shape_mismatch [OF a1 a2, where h = ?h]
  have "DenseLayer_Forward ?l ?h \<lparr>ptr = 0, len = 1, cap = 2\<rparr> \<lparr>ptr = 2, len = 2, cap = 3\<rparr>
      = Inl (Panic ''shape mismatch (1, _)'')"
    using t [of "\<lparr>ptr = 0, len = 1, cap = 2\<rparr>" "\<lparr>ptr = 2, len = 2, cap = 3\<rparr>"]
    by (simp add: FormatInt_def digits.simps)
  moreover have "DenseLayer_Forward ?l ?h \<lparr>ptr = 0, len = 2, cap = 2\<rparr> \<lparr>ptr = 2, len = 3, cap = 3\<rparr>
      = Inl (Panic ''shape mismatch (_, 3)'')"
    using t [of "\<lparr>ptr = 0, len = 2, cap = 2\<rparr>" "\<lparr>ptr = 2, len = 3, cap = 3\<rparr>"]
    by (simp add: FormatInt_def digits.simps)
  moreover have "\<exists>h'. DenseLayer_Forward ?l ?h \<lparr>ptr = 0, len = 2, cap = 2\<rparr> \<lparr>ptr = 2, len = 2, cap = 3\<rparr>
      = Inr (h', \<lparr>ptr = 2, len = 2, cap = 3\<rparr>)"
    using t [of "\<lparr>ptr = 0, len = 2, cap = 2\<rparr>" "\<lparr>ptr = 2, len = 2, cap = 3\<rparr>"]
    by simp
  ultimately show ?thesis using a1 by simp
qed

section \<open>Model.Shape, Model.AddLayer and Model.Forward\<close>

declare Forward_loop.simps [simp del]

lemma index_Nil: "index [] i = Inl IndexOutOfRange"
  by (simp add: index_def)

lemma index_append_last: "index (xs @ [x]) (length xs) = Inr x"
  by (simp add: index_def)

lemma index_append_Inr: "index xs i = Inr y \<Longrightarrow> index (xs @ zs) i = Inr y"
  by (auto simp: index_def nth_append split: if_splits)

lemma index_Inr_iff: "index xs i = Inr y \<longleftrightarrow> i < length xs \<and> y = xs ! i"
  by (auto simp: index_def)

lemma DenseLayer_Forward_Inr_len:
  "DenseLayer_Forward l h inp out = Inr (h', out') \<Longrightarrow>
   out' = out \<and> len inp = length l \<and> l \<noteq> [] \<and> len out = length (hd l)"
  by (cases l) (auto simp: DenseLayer_Forward_def index_def split: if_splits sum.splits)

lemma Forward_resize_len: "Forward_resize h out n = (h1, out1) \<Longrightarrow> len out1 = n"
  by (auto simp: Forward_resize_def split: if_splits prod.splits)

lemma Forward_stage_Inr:
  assumes "Forward_stage m i h inp out = Inr (h', out')"
  shows "i < length (Layers m) \<and> i < length (Biases m) \<and> i < length (ActivFn m)
     \<and> len inp = length (Layers m ! i)
     \<and> DenseLayer_Shape (Layers m ! i) = Inr (len inp, len out')"
proof -
  from assms obtain l where l: "index (Layers m) i = Inr l"
    by (auto simp: Forward_stage_def split: sum.splits)
  from assms l obtain fi fo where sh: "DenseLayer_Shape l = Inr (fi, fo)"
    by (auto simp: Forward_stage_def split: sum.splits)
  obtain h1 out1 where rs: "Forward_resize h out fo = (h1, out1)"
    by (cases "Forward_resize h out fo")
  from assms l sh rs obtain h2 out2 where fw: "DenseLayer_Forward l h1 inp out1 = Inr (h2, out2)"
    by (auto simp: Forward_stage_def split: sum.splits)
  from assms l sh rs fw obtain b where b: "index (Biases m) i = Inr b"
    by (auto simp: Forward_stage_def split: sum.splits)
  from assms l sh rs fw b obtain a where a: "index (ActivFn m) i = Inr a"
    by (auto simp: Forward_stage_def split: sum.splits)
  from assms l sh rs fw b a have o: "out' = out2"
    by (simp add: Forward_stage_def)
  have "out2 = out1" "len inp = length l"
    using DenseLayer_Forward_Inr_len [OF fw] by simp_all
  moreover have "len out1 = fo"
    using rs by (rule Forward_resize_len)
  moreover have "fi = length l"
    using sh by (simp add: DenseLayer_Shape_Inr)
  ultimately show ?thesis
    using l b a sh o by (simp add: index_Inr_iff)
qed

lemma Forward_stage_AddLayer:
  assumes "Forward_stage m i h inp out = Inr r"
  shows "Forward_stage (AddLayer m l a) i h inp out = Inr r"
proof -
  obtain h' out' where r: "r = (h', out')" by (cases r)
  have i: "i < length (Layers m)" "i < length (Biases m)" "i < length (ActivFn m)"
    using Forward_stage_Inr [of m i h inp out h' out'] assms r by simp_all
  have f: "Layers (AddLayer m l a) = Layers m @ [l]"
    "Biases (AddLayer m l a) = Biases m @ [0]"
    "ActivFn (AddLayer m l a) = ActivFn m @ [a]"
    by (simp_all add: AddLayer_def)
  have e: "index (Layers m @ [l]) i = index (Layers m) i"
    "index (Biases m @ [0]) i = index (Biases m) i"
    "index (ActivFn m @ [a]) i = index (ActivFn m) i"
    using i by (simp_all add: index_def nth_append)
  have "Forward_stage (AddLayer m l a) i h inp out = Forward_stage m i h inp out"
    unfolding Forward_stage_def f e ..
  then show ?thesis using assms by simp
qed

lemma Forward_stage_mismatch:
  assumes "index (Layers m) i = Inr l" and "DenseLayer_Shape l = Inr (fanIn, fanOut)"
    and "fanIn \<noteq> len inp"
  shows "Forward_stage m i h inp out =
     Inl (Panic (''shape mismatch ('' @ FormatInt (int (len inp)) @ '', _)''))"
proof -
  have "len inp \<noteq> length l"
    using assms(2,3) by (auto simp: DenseLayer_Shape_Inr)
  then have "DenseLayer_Forward l h1 inp out1 =
     Inl (Panic (''shape mismatch ('' @ FormatInt (int (len inp)) @ '', _)''))" for h1 out1
    by (simp add: DenseLayer_Forward_def)
  then show ?thesis
    using assms(1,2) by (simp add: Forward_stage_def split: prod.splits)
qed

lemma Forward_loop_AddLayer:
  assumes "Forward_loop m i h inp out = Inr (h', res)"
    and "DenseLayer_Shape l = Inr (fanIn, fanOut)" and "fanIn \<noteq> len res"
  shows "Forward_loop (AddLayer m l a) i h inp out =
     Inl (Panic (''shape mismatch ('' @ FormatInt (int (len res)) @ '', _)''))"
  using assms
proof (induction m i h inp out rule: Forward_loop.induct)
  case (1 m i h inp out)
  from "1.prems"(1) obtain h1 out1 where st: "Forward_stage m i h inp out = Inr (h1, out1)"
    by (subst (asm) Forward_loop.simps) (auto split: sum.splits)
  have i: "i < length (Layers m)"
    using Forward_stage_Inr [OF st] by simp
  have st': "Forward_stage (AddLayer m l a) i h inp out = Inr (h1, out1)"
    using st by (rule Forward_stage_AddLayer)
  have ls: "Layers (AddLayer m l a) = Layers m @ [l]"
    by (simp add: AddLayer_def)
  show ?case
  proof (cases "Suc i < length (Layers m)")
    case True
    then have "Forward_loop m (Suc i) h1 out1 inp = Inr (h', res)"
      using "1.prems"(1) st by (subst (asm) Forward_loop.simps) simp
    then have "Forward_loop (AddLayer m l a) (Suc i) h1 out1 inp =
        Inl (Panic (''shape mismatch ('' @ FormatInt (int (len res)) @ '', _)''))"
      using "1.IH" st True "1.prems"(2,3) by simp
    then show ?thesis
      using st' True ls by (subst Forward_loop.simps) simp
  next
    case False
    then have last: "Suc i = length (Layers m)" using i by simp
    have res: "h1 = h'" "out1 = res"
      using "1.prems"(1) st False by (subst (asm) Forward_loop.simps, simp)+
    have "index (Layers (AddLayer m l a)) (Suc i) = Inr l"
      using last ls by (simp add: index_def)
    then have "Forward_stage (AddLayer m l a) (Suc i) h1 out1 inp =
        Inl (Panic (''shape mismatch ('' @ FormatInt (int (len out1)) @ '', _)''))"
      using "1.prems"(2,3) res by (intro Forward_stage_mismatch) simp_all
    then have "Forward_loop (AddLayer m l a) (Suc i) h1 out1 inp =
        Inl (Panic (''shape mismatch ('' @ FormatInt (int (len out1)) @ '', _)''))"
      by (subst Forward_loop.simps) simp
    then show ?thesis
      using st' last ls res by (subst Forward_loop.simps) simp
  qed
qed

lemma Forward_loop_Inr_last:
  assumes "Forward_loop m i h inp out = Inr (h', res)"
  shows "Layers m \<noteq> [] \<and> (\<exists>fi. DenseLayer_Shape (last (Layers m)) = Inr (fi, len res))"
  using assms
proof (induction m i h inp out rule: Forward_loop.induct)
  case (1 m i h inp out)
  from "1.prems"(1) obtain h1 out1 where st: "Forward_stage m i h inp out = Inr (h1, out1)"
    by (subst (asm) Forward_loop.simps) (auto split: sum.splits)
  have i: "i < length (Layers m)"
    and sh: "DenseLayer_Shape (Layers m ! i) = Inr (len inp, len out1)"
    using Forward_stage_Inr [OF st] by simp_all
  show ?case
  proof (cases "Suc i < length (Layers m)")
    case True
    then have "Forward_loop m (Suc i) h1 out1 inp = Inr (h', res)"
      using "1.prems"(1) st by (subst (asm) Forward_loop.simps) simp
    then show ?thesis
      using "1.IH" st True by simp
  next
    case False
    then have last: "Suc i = length (Layers m)" using i by simp
    have res: "out1 = res"
      using "1.prems"(1) st False by (subst (asm) Forward_loop.simps) simp
    have "last (Layers m) = Layers m ! i"
      using last i by (metis diff_Suc_1 last_conv_nth length_greater_0_conv less_nat_zero_code list.size(3))
    then show ?thesis
      using sh res i by auto
  qed
qed

text \<open>
  C10. On a model without layers \<open>Model.Forward\<close> panics with an index out of range,
  whatever the input and output buffers are: the first thing the loop does is
  \<open>m.Layers[0]\<close>.
\<close>

theorem Model_Forward_empty:
  "Layers m = [] \<Longrightarrow> Model_Forward m h inp out = Inl IndexOutOfRange"
  by (simp add: Model_Forward_def Forward_loop.simps Forward_stage_def index_Nil)

theorem Model_Forward_empty_witness:
  "Layers \<lparr>Layers = [], Biases = [], ActivFn = []\<rparr> = []
   \<and> Model_Forward \<lparr>Layers = [], Biases = [], ActivFn = []\<rparr> [5, 7, 0, 0]
        \<lparr>ptr = 0, len = 2, cap = 2\<rparr> \<lparr>ptr = 2, len = 2, cap = 2\<rparr> = Inl IndexOutOfRange"
  using Model_Forward_empty [of "\<lparr>Layers = [], Biases = [], ActivFn = []\<rparr>" "[5, 7, 0, 0]"
      "\<lparr>ptr = 0, len = 2, cap = 2\<rparr>" "\<lparr>ptr = 2, len = 2, cap = 2\<rparr>"]
  by simp

text \<open>
  C6. \<open>Model.Shape\<close> panics with an index out of range on a model without layers.
  On a model with a layer it returns the first layer's \<open>fanIn\<close> with the last layer's
  \<open>fanOut\<close>, the two layers being such that their own \<open>Shape\<close> returns. The witness
  is the model of the two layers of shapes (3,4) and (4,2), whose shape is (3,2).
\<close>

theorem Model_Shape_first_last:
  "(Layers m = [] \<longrightarrow> Model_Shape m = Inl IndexOutOfRange)
   \<and> (Layers m \<noteq> [] \<and> DenseLayer_Shape (hd (Layers m)) = Inr (fanIn, x)
        \<and> DenseLayer_Shape (last (Layers m)) = Inr (y, fanOut)
      \<longrightarrow> Model_Shape m = Inr (fanIn, fanOut))"
proof (cases "Layers m")
  case Nil
  then show ?thesis by (simp add: Model_Shape_def index_Nil)
next
  case (Cons l ls)
  then have "index (Layers m) 0 = Inr (hd (Layers m))"
    by (simp add: index_def)
  moreover have "index (Layers m) (length (Layers m) - 1) = Inr (last (Layers m))"
    using Cons by (simp add: index_def last_conv_nth)
  ultimately show ?thesis
    using Cons by (auto simp: Model_Shape_def)
qed

theorem Model_Shape_first_last_witness:
  "Model_Shape \<lparr>Layers = [], Biases = [], ActivFn = []\<rparr> = Inl IndexOutOfRange
   \<and> Model_Shape (AddLayer (AddLayer \<lparr>Layers = [], Biases = [], ActivFn = []\<rparr>
        (NewDenseLayer 3 4) Ident) (NewDenseLayer 4 2) Ident) = Inr (3, 2)"
proof -
  let ?e = "\<lparr>Layers = [], Biases = [], ActivFn = []\<rparr>"
  let ?m = "AddLayer (AddLayer ?e (NewDenseLayer 3 4) Ident) (NewDenseLayer 4 2) Ident"
  have ls: "Layers ?m = [NewDenseLayer 3 4, NewDenseLayer 4 2]"
    by (simp add: AddLayer_def)
  have "DenseLayer_Shape (NewDenseLayer 3 4) = Inr (3, 4)"
    by (simp add: DenseLayer_Shape_Inr NewDenseLayer_def eval_nat_numeral)
  moreover have "DenseLayer_Shape (NewDenseLayer 4 2) = Inr (4, 2)"
    by (simp add: DenseLayer_Shape_Inr NewDenseLayer_def eval_nat_numeral)
  ultimately have "Model_Shape ?m = Inr (3, 2)"
    using Model_Shape_first_last [of ?m 3 4 4 2] ls by simp
  moreover have "Model_Shape ?e = Inl IndexOutOfRange"
    using Model_Shape_first_last [of ?e] by simp
  ultimately show ?thesis by simp
qed

text \<open>
  C9. \<open>Model.AddLayer\<close> is a total function of the model, the layer and the
  activation: it has no failing case and looks at no shape. It appends the layer, a zero
  bias and the activation to the three sequences, so sequences of equal length stay of
  equal length. A layer whose \<open>fanIn\<close> differs from the \<open>fanOut\<close> of the last layer
  is accepted; the mismatch shows when the model is run: if \<open>Model.Forward\<close> returns
  \<open>res\<close> on the model, its length is the last layer's \<open>fanOut\<close>, and on the model
  extended by a layer of another \<open>fanIn\<close> the same call panics with
  \<open>shape mismatch (n, _)\<close>, \<open>n\<close> the length of \<open>res\<close>.
\<close>

theorem AddLayer_appends:
  "Layers (AddLayer m l a) = Layers m @ [l]
   \<and> Biases (AddLayer m l a) = Biases m @ [0]
   \<and> ActivFn (AddLayer m l a) = ActivFn m @ [a]
   \<and> (length (Layers m) = length (Biases m) \<and> length (Biases m) = length (ActivFn m) \<longrightarrow>
        length (Layers (AddLayer m l a)) = length (Biases (AddLayer m l a))
        \<and> length (Biases (AddLayer m l a)) = length (ActivFn (AddLayer m l a)))
   \<and> (Model_Forward m h inp out = Inr (h', res) \<longrightarrow>
        (\<exists>fi. DenseLayer_Shape (last (Layers m)) = Inr (fi, len res)))
   \<and> (Model_Forward m h inp out = Inr (h', res)
        \<and> DenseLayer_Shape l = Inr (fanIn, fanOut) \<and> fanIn \<noteq> len res \<longrightarrow>
        Model_Forward (AddLayer m l a) h inp out =
          Inl (Panic (''shape mismatch ('' @ FormatInt (int (len res)) @ '', _)'')))"
proof -
  have "Model_Forward m h inp out = Inr (h', res) \<longrightarrow>
        (\<exists>fi. DenseLayer_Shape (last (Layers m)) = Inr (fi, len res))"
    unfolding Model_Forward_def using Forward_loop_Inr_last by blast
  moreover have "Model_Forward m h inp out = Inr (h', res)
        \<and> DenseLayer_Shape l = Inr (fanIn, fanOut) \<and> fanIn \<noteq> len res \<longrightarrow>
        Model_Forward (AddLayer m l a) h inp out =
          Inl (Panic (''shape mismatch ('' @ FormatInt (int (len res)) @ '', _)''))"
    unfolding Model_Forward_def using Forward_loop_AddLayer by blast
  ultimately show ?thesis
    by (simp add: AddLayer_def)
qed

theorem AddLayer_appends_witness:
  "length (Layers (AddLayer \<lparr>Layers = [], Biases = [], ActivFn = []\<rparr> [[1, 2]] Ident)) = 1
   \<and> length (Biases (AddLayer \<lparr>Layers = [], Biases = [], ActivFn = []\<rparr> [[1, 2]] Ident)) = 1
   \<and> length (ActivFn (AddLayer \<lparr>Layers = [], Biases = [], ActivFn = []\<rparr> [[1, 2]] Ident)) = 1
   \<and> Model_Forward (AddLayer \<lparr>Layers = [], Biases = [], ActivFn = []\<rparr> [[1, 2]] Ident)
        [5, 0, 0] \<lparr>ptr = 0, len = 1, cap = 1\<rparr> \<lparr>ptr = 1, len = 2, cap = 2\<rparr>
      = Inr ([5, 5, 10], \<lparr>ptr = 1, len = 2, cap = 2\<rparr>)
   \<and> DenseLayer_Shape [[1]] = Inr (1, 1)
   \<and> Biases (AddLayer (AddLayer \<lparr>Layers = [], Biases = [], ActivFn = []\<rparr> [[1, 2]] Ident)
        [[1]] Ident) = [0, 0]
   \<and> length (Layers (AddLayer (AddLayer \<lparr>Layers = [], Biases = [], ActivFn = []\<rparr> [[1, 2]] Ident)
        [[1]] Ident)) = 2
   \<and> length (ActivFn (AddLayer (AddLayer \<lparr>Layers = [], Biases = [], ActivFn = []\<rparr> [[1, 2]] Ident)
        [[1]] Ident)) = 2
   \<and> Model_Forward (AddLayer (AddLayer \<lparr>Layers = [], Biases = [], ActivFn = []\<rparr> [[1, 2]] Ident)
        [[1]] Ident) [5, 0, 0] \<lparr>ptr = 0, len = 1, cap = 1\<rparr> \<lparr>ptr = 1, len = 2, cap = 2\<rparr>
      = Inl (Panic ''shape mismatch (2, _)'')"
proof -
  let ?m = "AddLayer \<lparr>Layers = [], Biases = [], ActivFn = []\<rparr> [[1, 2]] Ident"
  let ?inp = "\<lparr>ptr = 0, len = 1, cap = 1\<rparr>" and ?out = "\<lparr>ptr = 1, len = 2, cap = 2\<rparr>"
  have lens: "length (Layers ?m) = 1" "length (Biases ?m) = 1" "length (ActivFn ?m) = 1"
    by (simp_all add: AddLayer_def)
  have run: "Model_Forward ?m [5, 0, 0] ?inp ?out = Inr ([5, 5, 10], ?out)"
    by (simp add: run_simps upt_2)
  have sh: "DenseLayer_Shape [[1]] = Inr (1, 1)"
    by (simp add: DenseLayer_Shape_def index_def)
  note t = AddLayer_appends [where m = ?m and l = "[[1]]" and a = Ident and h = "[5, 0, 0]"
      and inp = ?inp and out = ?out and h' = "[5, 5, 10]" and res = ?out
      and fanIn = 1 and fanOut = 1]
  have "Model_Forward (AddLayer ?m [[1]] Ident) [5, 0, 0] ?inp ?out
      = Inl (Panic ''shape mismatch (2, _)'')"
    using t run sh by (simp add: FormatInt_def digits.simps)
  moreover have "Biases (AddLayer ?m [[1]] Ident) = [0, 0]"
    "length (Layers (AddLayer ?m [[1]] Ident)) = 2"
    "length (ActivFn (AddLayer ?m [[1]] Ident)) = 2"
    using t lens by (simp_all add: AddLayer_def)
  ultimately show ?thesis using lens run sh by simp
qed

section \<open>Model.Forward, stage by stage\<close>

lemma slices_Grow_props:
  assumes v: "valid h s" and g: "slices_Grow h s k = (h1, s1)"
  shows "valid h1 s1 \<and> len s1 = len s \<and> len s + k \<le> cap s1 \<and> length h \<le> length h1
     \<and> (\<forall>a<length h. h1 ! a = h ! a)
     \<and> (ptr s1 = ptr s \<or> length h \<le> ptr s1)
     \<and> (\<forall>j<cap s1. h1 ! (ptr s1 + j) = (if j < cap s then h ! (ptr s + j) else 0))"
proof (cases "cap s - len s < k")
  case False
  then have "h1 = h" "s1 = s"
    using g by (simp_all add: slices_Grow_def)
  then show ?thesis
    using v False by (auto simp add: valid_def)
next
  case True
  let ?old = "take (cap s) (drop (ptr s) h)"
  let ?n = "k - (cap s - len s)"
  have h1: "h1 = h @ ?old @ replicate ?n 0"
    and s1: "s1 = \<lparr>ptr = length h, len = len s, cap = cap s + ?n\<rparr>"
    using g True by (simp_all add: slices_Grow_def)
  have lo: "length ?old = cap s"
    using v by (auto simp add: valid_def)
  have cells: "\<forall>j<cap s1. h1 ! (ptr s1 + j) = (if j < cap s then h ! (ptr s + j) else 0)"
    using lo v by (auto simp: h1 s1 nth_append valid_def)
  have "valid h1 s1"
    using v True lo by (simp add: valid_def h1 s1)
  moreover have "len s + k \<le> cap s1"
    using v True by (simp add: s1 valid_def)
  moreover have "\<forall>a<length h. h1 ! a = h ! a"
    by (simp add: h1 nth_append)
  ultimately show ?thesis
    using cells by (simp add: h1 s1)
qed

lemma Forward_resize_props:
  assumes v: "valid h out" and g: "Forward_resize h out n = (h1, out1)"
  shows "valid h1 out1 \<and> len out1 = n \<and> length h \<le> length h1
     \<and> (\<forall>a<length h. h1 ! a = h ! a)
     \<and> (ptr out1 = ptr out \<and> n \<le> cap out \<or> length h \<le> ptr out1)
     \<and> (\<forall>j<n. h1 ! (ptr out1 + j) = (if j < cap out then h ! (ptr out + j) else 0))"
proof -
  consider (shrink) "n < len out" | (same) "n = len out" | (grow) "len out < n"
    by linarith
  then show ?thesis
  proof cases
    case shrink
    then have "h1 = h" "out1 = out\<lparr>len := n\<rparr>"
      using g by (simp_all add: Forward_resize_def)
    then show ?thesis
      using v shrink by (simp add: valid_def)
  next
    case same
    then have "h1 = h" "out1 = out"
      using g by (simp_all add: Forward_resize_def)
    then show ?thesis
      using v same by (simp add: valid_def)
  next
    case grow
    obtain h' s where gr: "slices_Grow h out (n - len out) = (h', s)"
      by (cases "slices_Grow h out (n - len out)")
    then have r: "h1 = h'" "out1 = s\<lparr>len := n\<rparr>"
      using g grow by (simp_all add: Forward_resize_def)
    note p = slices_Grow_props [OF v gr]
    have cap: "n \<le> cap s"
      using p grow by simp
    have "valid h1 out1"
      using p cap by (simp add: r valid_def)
    moreover have "ptr out1 = ptr out \<and> n \<le> cap out \<or> length h \<le> ptr out1"
    proof (cases "cap out - len out < n - len out")
      case True
      then have "ptr s = length h"
        using gr by (auto simp: slices_Grow_def)
      then show ?thesis by (simp add: r)
    next
      case False
      then have "s = out"
        using gr by (simp add: slices_Grow_def)
      then show ?thesis
        using False grow v by (auto simp add: r valid_def)
    qed
    moreover have "\<forall>j<n. h1 ! (ptr out1 + j) = (if j < cap out then h ! (ptr out + j) else 0)"
      using p cap by (simp add: r)
    ultimately show ?thesis
      using p by (simp add: r)
  qed
qed

lemma nth_upd_cells_outside:
  "a < length h \<Longrightarrow> \<not> (p \<le> a \<and> a - p < n) \<Longrightarrow> upd_cells p f [0..<n] h ! a = h ! a"
  by (auto simp add: nth_upd_cells)

lemma nth_upd_cells_inside:
  "j < n \<Longrightarrow> p + j < length h \<Longrightarrow> upd_cells p f [0..<n] h ! (p + j) = f j (h ! (p + j))"
  by (simp add: nth_upd_cells)

text \<open>
  What one pass of the loop does: the output buffer resized to \<open>fanOut\<close> keeps the
  cells it had within its capacity and has zeros beyond; the pass adds the weighted sums
  onto these cells, then the bias, and applies the activation. The input cells stay.
\<close>

lemma Forward_stage_eq:
  assumes li: "index (Layers m) i = Inr l" and bi: "index (Biases m) i = Inr b"
    and ai: "index (ActivFn m) i = Inr a"
    and sh: "DenseLayer_Shape l = Inr (fanIn, fanOut)"
    and rect: "\<forall>row\<in>set l. length row = fanOut"
    and n: "len inp = fanIn" and vi: "valid h inp" and vo: "valid h out"
    and sep: "ptr inp + len inp \<le> ptr out \<or> ptr out + cap out \<le> ptr inp"
  shows "\<exists>h' out'. Forward_stage m i h inp out = Inr (h', out')
     \<and> valid h' out' \<and> len out' = fanOut \<and> length h \<le> length h'
     \<and> (\<forall>j<fanOut. h' ! (ptr out' + j) =
           Apply a ((if j < cap out then h ! (ptr out + j) else 0)
                    + (\<Sum>k<fanIn. h ! (ptr inp + k) * l ! k ! j) + b))
     \<and> (\<forall>k<fanIn. h' ! (ptr inp + k) = h ! (ptr inp + k))"
proof -
  obtain h1 out1 where rs: "Forward_resize h out fanOut = (h1, out1)"
    by (cases "Forward_resize h out fanOut")
  note p = Forward_resize_props [OF vo rs]
  have l: "l \<noteq> []" "fanIn = length l" "fanOut = length (hd l)"
    using sh by (simp_all add: DenseLayer_Shape_Inr)
  have mi: "ptr inp + len inp \<le> length h"
    using vi by (simp add: valid_def)
  have mi1: "ptr inp + len inp \<le> length h1"
    using mi p by simp
  have mo1: "ptr out1 + len out1 \<le> length h1"
    using p by (simp add: valid_def)
  have dis: "disjoint inp out1"
    using p sep mi by (auto simp: disjoint_def)
  have rect1: "\<forall>row\<in>set l. len out1 \<le> length row"
    using rect p by simp
  have lens: "len inp = length l" "len out1 = length (hd l)"
    using n l p by simp_all
  let ?h2 = "upd_cells (ptr out1) (\<lambda>j v. v + (\<Sum>k<len inp. h1 ! (ptr inp + k) * l ! k ! j)) [0..<len out1] h1"
  let ?h3 = "upd_cells (ptr out1) (\<lambda>j v. Apply a (v + b)) [0..<len out1] ?h2"
  have fw: "DenseLayer_Forward l h1 inp out1 = Inr (?h2, out1)"
    by (rule DenseLayer_Forward_eq [OF l(1) rect1 lens mi1 mo1 dis])
  have run: "Forward_stage m i h inp out = Inr (?h3, out1)"
    by (simp add: Forward_stage_def li sh rs fw bi ai Forward_activ_eq)
  have len3: "length ?h3 = length h1"
    by (simp add: length_upd_cells)
  have inp_same: "h1 ! (ptr inp + k) = h ! (ptr inp + k)" if "k < fanIn" for k
    using that p mi n by simp
  have sums: "(\<Sum>k<len inp. h1 ! (ptr inp + k) * l ! k ! j) = (\<Sum>k<fanIn. h ! (ptr inp + k) * l ! k ! j)" for j
    unfolding n by (rule sum.cong) (simp_all add: inp_same)
  have cells: "\<forall>j<fanOut. ?h3 ! (ptr out1 + j) =
           Apply a ((if j < cap out then h ! (ptr out + j) else 0)
                    + (\<Sum>k<fanIn. h ! (ptr inp + k) * l ! k ! j) + b)"
  proof (intro allI impI)
    fix j assume j: "j < fanOut"
    then have a: "ptr out1 + j < length h1" "j < len out1"
      using mo1 p by simp_all
    have "?h3 ! (ptr out1 + j) = Apply a (?h2 ! (ptr out1 + j) + b)"
      using a by (intro nth_upd_cells_inside) (simp_all add: length_upd_cells)
    also have "?h2 ! (ptr out1 + j) = h1 ! (ptr out1 + j) + (\<Sum>k<len inp. h1 ! (ptr inp + k) * l ! k ! j)"
      using a by (intro nth_upd_cells_inside) simp_all
    also have "h1 ! (ptr out1 + j) = (if j < cap out then h ! (ptr out + j) else 0)"
      using p j by simp
    finally show "?h3 ! (ptr out1 + j) =
           Apply a ((if j < cap out then h ! (ptr out + j) else 0)
                    + (\<Sum>k<fanIn. h ! (ptr inp + k) * l ! k ! j) + b)"
      by (simp only: sums)
  qed
  have keep: "\<forall>k<fanIn. ?h3 ! (ptr inp + k) = h ! (ptr inp + k)"
  proof (intro allI impI)
    fix k assume k: "k < fanIn"
    then have a: "ptr inp + k < length h1"
      using mi1 n by simp
    have out: "\<not> (ptr out1 \<le> ptr inp + k \<and> ptr inp + k - ptr out1 < len out1)"
      using dis k n by (auto simp: disjoint_def)
    have "?h3 ! (ptr inp + k) = ?h2 ! (ptr inp + k)"
      using a out by (intro nth_upd_cells_outside) (simp_all add: length_upd_cells)
    also have "\<dots> = h1 ! (ptr inp + k)"
      using a out by (intro nth_upd_cells_outside) simp_all
    finally show "?h3 ! (ptr inp + k) = h ! (ptr inp + k)"
      using inp_same [OF k] by simp
  qed
  have "valid ?h3 out1"
    using p by (simp add: valid_def length_upd_cells)
  moreover have "length h \<le> length ?h3"
    using p len3 by simp
  ultimately show ?thesis
    using run p cells keep by blast
qed

text \<open>
  Hence a model of one layer, run on an output buffer whose cells are zero, returns what
  the specification's forward pass returns.
\<close>

lemma Model_Forward_single_layer:
  assumes m: "Layers m = [l]" "Biases m = [b]" "ActivFn m = [a]"
    and sh: "DenseLayer_Shape l = Inr (fanIn, fanOut)"
    and rect: "\<forall>row\<in>set l. length row = fanOut"
    and n: "len inp = fanIn" and vi: "valid h inp" and vo: "valid h out"
    and sep: "ptr inp + len inp \<le> ptr out \<or> ptr out + cap out \<le> ptr inp"
    and zero: "\<forall>j<cap out. h ! (ptr out + j) = 0"
  shows "\<exists>h' res. Model_Forward m h inp out = Inr (h', res) \<and> len res = fanOut
     \<and> sread h' res = Forward_spec m (sread h inp)"
proof -
  have i: "index (Layers m) 0 = Inr l" "index (Biases m) 0 = Inr b" "index (ActivFn m) 0 = Inr a"
    by (simp_all add: m index_def)
  obtain h' res where st: "Forward_stage m 0 h inp out = Inr (h', res)"
    and v: "valid h' res" and lr: "len res = fanOut"
    and cells: "\<forall>j<fanOut. h' ! (ptr res + j) =
           Apply a ((if j < cap out then h ! (ptr out + j) else 0)
                    + (\<Sum>k<fanIn. h ! (ptr inp + k) * l ! k ! j) + b)"
    using Forward_stage_eq [OF i sh rect n vi vo sep] by blast
  have run: "Model_Forward m h inp out = Inr (h', res)"
    by (simp add: Model_Forward_def Forward_loop.simps st m)
  have l: "fanIn = length l" "fanOut = length (hd l)"
    using sh by (simp_all add: DenseLayer_Shape_Inr)
  have mi: "ptr inp + len inp \<le> length h"
    using vi by (simp add: valid_def)
  have xs: "sread h inp = map (\<lambda>k. h ! (ptr inp + k)) [0..<fanIn]"
    using mi n by (simp add: sread_map)
  have seed: "(if j < cap out then h ! (ptr out + j) else 0) = 0" for j
    using zero by simp
  have sums: "(\<Sum>k\<leftarrow>[0..<fanIn]. map (\<lambda>k. h ! (ptr inp + k)) [0..<fanIn] ! k * l ! k ! j)
      = (\<Sum>k<fanIn. h ! (ptr inp + k) * l ! k ! j)" for j
    unfolding sum_list_upt_lessThan by (rule sum.cong) simp_all
  have "Forward_spec m (sread h inp) = stage_spec l b a (sread h inp)"
    by (simp add: Forward_spec_def m)
  also have "\<dots> = map (\<lambda>j. Apply a ((\<Sum>k<fanIn. h ! (ptr inp + k) * l ! k ! j) + b)) [0..<fanOut]"
    unfolding stage_spec_def xs by (simp add: sums l(2))
  finally have spec: "Forward_spec m (sread h inp) =
      map (\<lambda>j. Apply a ((\<Sum>k<fanIn. h ! (ptr inp + k) * l ! k ! j) + b)) [0..<fanOut]" .
  have "ptr res + len res \<le> length h'"
    using v by (simp add: valid_def)
  then have "sread h' res = map (\<lambda>j. h' ! (ptr res + j)) [0..<fanOut]"
    using lr by (simp add: sread_map)
  also have "\<dots> = map (\<lambda>j. Apply a ((\<Sum>k<fanIn. h ! (ptr inp + k) * l ! k ! j) + b)) [0..<fanOut]"
    using cells by (simp add: seed)
  finally show ?thesis
    using run lr spec by simp
qed

text \<open>
  C1. The claim is that \<open>Model.Forward\<close> computes \<open>Forward_spec\<close>. The code does so
  for a model of one layer (\<open>Model_Forward_single_layer\<close> above). With two layers it
  does not: after the first stage the loop swaps the buffers, so the second stage
  accumulates onto the caller's input buffer, which still holds the input, and nothing
  clears it. On the two layers \<open>[[1]]\<close> and \<open>[[1]]\<close> with zero biases and identity
  activations, the input \<open>[5]\<close> and the zeroed scratch buffer \<open>[0]\<close>, the code
  returns \<open>[10]\<close> where the stages chained give \<open>[5]\<close>.
\<close>

theorem Model_Forward_stale_buffer:
  "Model_Forward (AddLayer (AddLayer \<lparr>Layers = [], Biases = [], ActivFn = []\<rparr> [[1]] Ident) [[1]] Ident)
      [5, 0] \<lparr>ptr = 0, len = 1, cap = 1\<rparr> \<lparr>ptr = 1, len = 1, cap = 1\<rparr>
    = Inr ([10, 5], \<lparr>ptr = 0, len = 1, cap = 1\<rparr>)
   \<and> sread [10, 5] \<lparr>ptr = 0, len = 1, cap = 1\<rparr> = [10]
   \<and> Forward_spec (AddLayer (AddLayer \<lparr>Layers = [], Biases = [], ActivFn = []\<rparr> [[1]] Ident) [[1]] Ident)
        (sread [5, 0] \<lparr>ptr = 0, len = 1, cap = 1\<rparr>) = [5]"
proof -
  have "Model_Forward (AddLayer (AddLayer \<lparr>Layers = [], Biases = [], ActivFn = []\<rparr> [[1]] Ident) [[1]] Ident)
      [5, 0] \<lparr>ptr = 0, len = 1, cap = 1\<rparr> \<lparr>ptr = 1, len = 1, cap = 1\<rparr>
    = Inr ([10, 5], \<lparr>ptr = 0, len = 1, cap = 1\<rparr>)"
    by (simp add: run_simps)
  moreover have "Forward_spec (AddLayer (AddLayer \<lparr>Layers = [], Biases = [], ActivFn = []\<rparr> [[1]] Ident) [[1]] Ident)
        (sread [5, 0] \<lparr>ptr = 0, len = 1, cap = 1\<rparr>) = [5]"
    by (simp add: Forward_spec_def stage_spec_def AddLayer_def Ident_def sread_def upt_2)
  ultimately show ?thesis
    by (simp add: sread_def)
qed

text \<open>
  The same on layers of shapes (1,2) and (2,1), where the scratch buffer is regrown:
  the code returns \<open>[20]\<close>, the stages chained give \<open>[15]\<close>.
\<close>

lemma Model_Forward_regrown_example:
  "Model_Forward (AddLayer (AddLayer \<lparr>Layers = [], Biases = [], ActivFn = []\<rparr> [[1, 2]] Ident)
        [[1], [1]] Ident)
      [5, 0] \<lparr>ptr = 0, len = 1, cap = 1\<rparr> \<lparr>ptr = 1, len = 1, cap = 1\<rparr>
    = Inr ([20, 0, 5, 10], \<lparr>ptr = 0, len = 1, cap = 1\<rparr>)
   \<and> Forward_spec (AddLayer (AddLayer \<lparr>Layers = [], Biases = [], ActivFn = []\<rparr> [[1, 2]] Ident)
        [[1], [1]] Ident) [5] = [15]"
  by (simp add: run_simps upt_2 Forward_spec_def stage_spec_def)

section \<open>Softmax\<close>

lemma sread_upd_cells:
  assumes "ptr s + len s \<le> length h"
  shows "sread (upd_cells (ptr s) (\<lambda>j. f) [0..<len s] h) s = map f (sread h s)"
proof -
  have "ptr s + len s \<le> length (upd_cells (ptr s) (\<lambda>j. f) [0..<len s] h)"
    using assms by (simp add: length_upd_cells)
  then show ?thesis
    using assms by (simp add: sread_map nth_upd_cells)
qed

lemma softmaxd_loop_foldl:
  "softmaxd_loop A h xs js sp =
     foldl (\<lambda>s x. round32 A (s + exp_f32 A x)) sp (map (\<lambda>i. h ! (ptr xs + i)) js)"
  by (induction js arbitrary: sp) simp_all

lemma softmaxd_foldl:
  "ptr xs + len xs \<le> length h \<Longrightarrow>
   softmaxd A h xs = foldl (\<lambda>s x. round32 A (s + exp_f32 A x)) 0 (sread h xs)"
  by (simp add: softmaxd_def softmaxd_loop_foldl sread_map)

lemma Softmax_eq:
  "Softmax A h xs =
     upd_cells (ptr xs) (\<lambda>j v. round32 A (exp_f32 A v / softmaxd A h xs)) [0..<len xs] h"
  by (simp add: Softmax_def Softmax_loop_eq)

lemma exp_f32_range:
  assumes "float32_arith A u eta M" and "math_Exp A x \<le> M"
  shows "0 \<le> exp_f32 A x \<and> exp_f32 A x \<le> M \<and> round32 A (exp_f32 A x) = exp_f32 A x"
proof -
  have e0: "0 \<le> math_Exp A x"
    using assms(1) by (simp add: float32_arith_def)
  have mono: "\<And>a b. 0 \<le> a \<Longrightarrow> a \<le> b \<Longrightarrow> b \<le> M \<Longrightarrow> round32 A a \<le> round32 A b"
    using assms(1) unfolding float32_arith_def by blast
  have M: "0 \<le> M" "round32 A 0 = 0" "round32 A M = M"
    using assms(1) by (simp_all add: float32_arith_def)
  have "round32 A 0 \<le> round32 A (math_Exp A x)"
    using e0 assms(2) by (intro mono) simp_all
  moreover have "round32 A (math_Exp A x) \<le> round32 A M"
    using e0 assms(2) by (intro mono) simp_all
  moreover have "round32 A (round32 A (math_Exp A x)) = round32 A (math_Exp A x)"
    using assms e0 unfolding float32_arith_def by blast
  ultimately show ?thesis
    using M by (simp add: exp_f32_def)
qed

lemma round32_add:
  assumes fa: "float32_arith A u eta M"
    and s: "0 \<le> s" "round32 A s = s"
    and e: "0 \<le> e" "round32 A e = e"
    and t: "s + e \<le> M"
  shows "s \<le> round32 A (s + e) \<and> e \<le> round32 A (s + e) \<and> round32 A (s + e) \<le> M
     \<and> round32 A (round32 A (s + e)) = round32 A (s + e)
     \<and> (s + e) * (1 - u) \<le> round32 A (s + e) \<and> round32 A (s + e) \<le> (s + e) * (1 + u)"
proof -
  have mono: "\<And>a b. 0 \<le> a \<Longrightarrow> a \<le> b \<Longrightarrow> b \<le> M \<Longrightarrow> round32 A a \<le> round32 A b"
    using fa unfolding float32_arith_def by blast
  have M: "round32 A M = M"
    using fa by (simp add: float32_arith_def)
  have "round32 A s \<le> round32 A (s + e)"
    using s e t by (intro mono) simp_all
  moreover have "round32 A e \<le> round32 A (s + e)"
    using s e t by (intro mono) simp_all
  moreover have "round32 A (s + e) \<le> round32 A M"
    using s e t by (intro mono) simp_all
  moreover have "round32 A (round32 A (s + e)) = round32 A (s + e)"
    using fa s e t unfolding float32_arith_def by (metis add_nonneg_nonneg)
  moreover have "\<bar>round32 A (s + e) - (s + e)\<bar> \<le> u * (s + e)"
    using fa s e t unfolding float32_arith_def by blast
  ultimately show ?thesis
    using s e M by (simp add: algebra_simps abs_le_iff)
qed

lemma rounded_sum:
  assumes fa: "float32_arith A u eta M"
    and "0 \<le> sp" and "round32 A sp = sp" and "no_overflow A M sp vs"
  shows "sp \<le> foldl (\<lambda>s x. round32 A (s + exp_f32 A x)) sp vs
     \<and> (\<forall>x\<in>set vs. 0 \<le> exp_f32 A x \<and> exp_f32 A x \<le> foldl (\<lambda>s x. round32 A (s + exp_f32 A x)) sp vs)
     \<and> (sp + (\<Sum>x\<leftarrow>vs. exp_f32 A x)) * (1 - u) ^ length vs
          \<le> foldl (\<lambda>s x. round32 A (s + exp_f32 A x)) sp vs
     \<and> foldl (\<lambda>s x. round32 A (s + exp_f32 A x)) sp vs
          \<le> (sp + (\<Sum>x\<leftarrow>vs. exp_f32 A x)) * (1 + u) ^ length vs"
  using assms(2-4)
proof (induction vs arbitrary: sp)
  case Nil
  then show ?case by simp
next
  case (Cons x vs)
  let ?F = "foldl (\<lambda>s x. round32 A (s + exp_f32 A x))"
  let ?e = "exp_f32 A x"
  let ?t = "sp + ?e"
  let ?s1 = "round32 A ?t"
  let ?S = "\<Sum>y\<leftarrow>vs. exp_f32 A y"
  have u: "0 \<le> u" "u < 1"
    using fa by (simp_all add: float32_arith_def)
  have now: "math_Exp A x \<le> M" "?t \<le> M" "no_overflow A M ?s1 vs"
    using Cons.prems(3) by simp_all
  have e: "0 \<le> ?e" "round32 A ?e = ?e"
    using exp_f32_range [OF fa now(1)] by simp_all
  note r = round32_add [OF fa Cons.prems(1,2) e now(2)]
  have s1: "0 \<le> ?s1" "round32 A ?s1 = ?s1"
    using r Cons.prems(1) by simp_all
  note ih = Cons.IH [OF s1 now(3)]
  have S: "0 \<le> ?S"
    using ih by (intro sum_list_nonneg) auto
  have pu: "0 \<le> (1 + u) ^ length vs" and pl: "0 \<le> (1 - u) ^ length vs"
    using u by simp_all
  have "?F sp (x # vs) = ?F ?s1 vs"
    by simp
  moreover have "sp \<le> ?F ?s1 vs"
    using ih r by linarith
  moreover have "\<forall>y\<in>set (x # vs). 0 \<le> exp_f32 A y \<and> exp_f32 A y \<le> ?F ?s1 vs"
    using ih r e by auto
  moreover have "(sp + (\<Sum>y\<leftarrow>x # vs. exp_f32 A y)) * (1 - u) ^ length (x # vs) \<le> ?F ?s1 vs"
  proof -
    have "(?t + ?S) * (1 - u) \<le> ?s1 + ?S"
    proof -
      have "?S * (1 - u) \<le> ?S"
        using S u by (simp add: mult_left_le)
      moreover have "?t * (1 - u) \<le> ?s1"
        using r by simp
      ultimately show ?thesis
        by (simp add: algebra_simps)
    qed
    then have "(?t + ?S) * (1 - u) * (1 - u) ^ length vs \<le> (?s1 + ?S) * (1 - u) ^ length vs"
      using pl by (rule mult_right_mono)
    also have "\<dots> \<le> ?F ?s1 vs"
      using ih by simp
    finally show ?thesis
      by (simp add: algebra_simps)
  qed
  moreover have "?F ?s1 vs \<le> (sp + (\<Sum>y\<leftarrow>x # vs. exp_f32 A y)) * (1 + u) ^ length (x # vs)"
  proof -
    have "?s1 + ?S \<le> (?t + ?S) * (1 + u)"
    proof -
      have "?S \<le> ?S * (1 + u)"
        using S u by (simp add: mult_left_le algebra_simps)
      moreover have "?s1 \<le> ?t * (1 + u)"
        using r by simp
      ultimately show ?thesis
        by (simp add: algebra_simps)
    qed
    then have "(?s1 + ?S) * (1 + u) ^ length vs \<le> (?t + ?S) * (1 + u) * (1 + u) ^ length vs"
      using pu by (rule mult_right_mono)
    moreover have "?F ?s1 vs \<le> (?s1 + ?S) * (1 + u) ^ length vs"
      using ih by simp
    ultimately show ?thesis
      by (simp add: algebra_simps)
  qed
  ultimately show ?case
    by simp
qed

lemma sum_list_divide: "(\<Sum>x\<leftarrow>xs. f x / (c :: real)) = (\<Sum>x\<leftarrow>xs. f x) / c"
  by (induction xs) (simp_all add: add_divide_distrib)

lemma sum_list_affine:
  "(\<Sum>x\<leftarrow>xs. f x * (c :: real) + d) = (\<Sum>x\<leftarrow>xs. f x) * c + real (length xs) * d"
  by (induction xs) (simp_all add: algebra_simps)

lemma sum_list_affine_minus:
  "(\<Sum>x\<leftarrow>xs. f x * (c :: real) - d) = (\<Sum>x\<leftarrow>xs. f x) * c - real (length xs) * d"
  by (induction xs) (simp_all add: algebra_simps)

lemma exp_minus_20: "0 < exp (- 20 :: real) \<and> exp (- 20 :: real) < 1 / 2 ^ 24"
proof -
  have "(1 + 20 / real 80) ^ 80 \<le> exp (20 :: real)"
    by (rule exp_ge_one_plus_x_over_n_power_n) simp_all
  moreover have "(2 :: real) ^ 24 < (1 + 20 / real 80) ^ 80"
    by (simp add: power_divide field_simps)
  ultimately have "(2 :: real) ^ 24 < exp 20"
    by linarith
  then have "1 / exp (20 :: real) < 1 / 2 ^ 24"
    by (simp add: field_simps)
  then show ?thesis
    by (simp add: exp_minus')
qed

lemma exp_minus_200: "0 < exp (- 200 :: real) \<and> exp (- 200 :: real) < 1 / 2 ^ 150"
proof -
  have "(1 + 200 / real 200) ^ 200 \<le> exp (200 :: real)"
    by (rule exp_ge_one_plus_x_over_n_power_n) simp_all
  then have "(2 :: real) ^ 200 \<le> exp 200"
    by simp
  moreover have "(2 :: real) ^ 150 < 2 ^ 200"
    by (rule power_strict_increasing) simp_all
  ultimately have "(2 :: real) ^ 150 < exp 200"
    by linarith
  then have "1 / exp (200 :: real) < 1 / 2 ^ 150"
    by (simp add: field_simps del: power_numeral)
  then show ?thesis
    by (simp add: exp_minus' del: power_numeral)
qed

lemma coarse32_round:
  "round32 coarse32 a =
     (if 1 < a \<and> a < 1 + 1 / 2 ^ 24 then 1 else if 0 < a \<and> a < 1 / 2 ^ 150 then 0 else a)"
  by (simp add: coarse32_def)

lemma tiny_less_one: "(1 :: real) / 2 ^ 150 < 1"
  by simp

lemma coarse32_arith: "float32_arith coarse32 (1 / 2 ^ 24) (1 / 2 ^ 150) 2"
proof -
  let ?r = "round32 coarse32"
  define d :: real where "d = 1 / 2 ^ 24"
  define t :: real where "t = 1 / 2 ^ 150"
  have d: "0 < d" "d < 1" and t: "0 < t" "t < 1"
    by (simp_all add: d_def t_def)
  have r: "?r a = (if 1 < a \<and> a < 1 + d then 1 else if 0 < a \<and> a < t then 0 else a)" for a
    by (simp add: coarse32_round d_def t_def)
  have fx: "?r 0 = 0" "?r 1 = 1" "?r 2 = 2"
    using d t by (simp_all add: r)
  have mono: "?r a \<le> ?r b" if "0 \<le> a" "a \<le> b" for a b
    using that d t by (auto simp: r)
  have idem: "?r (?r a) = ?r a" for a
    using d t by (auto simp: r)
  have err1: "\<bar>?r a - a\<bar> \<le> d * a" if "0 \<le> a" "\<not> (0 < a \<and> a < t)" for a
  proof (cases "1 < a \<and> a < 1 + d")
    case True
    then have "\<bar>?r a - a\<bar> = a - 1" by (simp add: r)
    also have "\<dots> \<le> d * 1" using True by simp
    also have "\<dots> \<le> d * a" using True d by (intro mult_left_mono) simp_all
    finally show ?thesis .
  next
    case False
    then have "?r a = a" using that by (auto simp: r)
    then show ?thesis using that d by simp
  qed
  have err: "\<bar>?r a - a\<bar> \<le> d * a + t" if "0 \<le> a" for a
  proof (cases "0 < a \<and> a < t")
    case True
    then have "\<not> (1 < a \<and> a < 1 + d)" using t by simp
    then have "\<bar>?r a - a\<bar> = a" using True by (simp add: r)
    moreover have "0 \<le> d * a" using d that by simp
    ultimately show ?thesis using True by linarith
  next
    case False
    then have "\<bar>?r a - a\<bar> \<le> d * a" using that by (intro err1) simp_all
    then show ?thesis using t by linarith
  qed
  have add: "\<bar>?r (a + b) - (a + b)\<bar> \<le> d * (a + b)"
    if "0 \<le> a" "0 \<le> b" "?r a = a" "?r b = b" for a b
  proof -
    have small: "x = 0" if "0 \<le> x" "x < t" "?r x = x" for x
    proof (rule ccontr)
      assume "x \<noteq> 0"
      then have "0 < x \<and> x < t" using that by simp
      moreover have "\<not> (1 < x \<and> x < 1 + d)" using that t by simp
      ultimately have "?r x = 0" by (simp add: r)
      then show False using that \<open>x \<noteq> 0\<close> by simp
    qed
    have "\<not> (0 < a + b \<and> a + b < t)"
    proof
      assume s: "0 < a + b \<and> a + b < t"
      then have "a < t" "b < t" using that by simp_all
      then have "a = 0" "b = 0" using that small by simp_all
      then show False using s by simp
    qed
    then show ?thesis
      using that by (intro err1) simp_all
  qed
  have ex: "0 \<le> math_Exp coarse32 x" for x
    by (simp add: coarse32_def)
  show ?thesis
    unfolding float32_arith_def d_def [symmetric] t_def [symmetric]
    using d t fx mono idem add err ex by simp
qed

lemma exp_minus_20_normal: "\<not> exp (- 20 :: real) < 1 / 2 ^ 150"
proof -
  have "exp (20 :: real) = exp 1 ^ 20"
    using exp_of_nat_mult [of 20 "1 :: real"] by simp
  also have "\<dots> \<le> 3 ^ 20"
    by (intro power_mono exp_le) simp
  also have "\<dots> < (2 :: real) ^ 150"
    by simp
  finally have "1 / (2 :: real) ^ 150 < 1 / exp 20"
    by (simp add: field_simps del: power_numeral)
  then show ?thesis
    by (simp add: exp_minus' del: power_numeral)
qed

lemma coarse32_values:
  "round32 coarse32 0 = 0" "round32 coarse32 1 = 1"
  "round32 coarse32 (exp (- 20)) = exp (- 20)" "round32 coarse32 (1 + exp (- 20)) = 1"
  "round32 coarse32 (exp (- 200)) = 0"
proof -
  have a: "0 < exp (- 20 :: real)" "exp (- 20 :: real) < 1 / 2 ^ 24"
    using exp_minus_20 by simp_all
  have b: "0 < exp (- 200 :: real)" "exp (- 200 :: real) < 1 / 2 ^ 150"
    using exp_minus_200 by simp_all
  have one: "(1 :: real) / 2 ^ 24 < 1" "(1 :: real) / 2 ^ 150 < 1"
    by simp_all
  show "round32 coarse32 0 = 0" "round32 coarse32 1 = 1"
    by (simp_all add: coarse32_round)
  have "\<not> 1 < exp (- 20 :: real)"
    using a one by linarith
  then show "round32 coarse32 (exp (- 20)) = exp (- 20)"
    using exp_minus_20_normal by (simp add: coarse32_round del: power_numeral)
  have "1 < 1 + exp (- 20 :: real) \<and> 1 + exp (- 20 :: real) < 1 + 1 / 2 ^ 24"
    using a by simp
  then show "round32 coarse32 (1 + exp (- 20)) = 1"
    unfolding coarse32_round by (rule if_P)
  have "\<not> 1 < exp (- 200 :: real)"
    using b one by linarith
  then show "round32 coarse32 (exp (- 200)) = 0"
    using b by (simp add: coarse32_round del: power_numeral)
qed

lemma coarse32_exp:
  "exp_f32 coarse32 0 = 1" "exp_f32 coarse32 (- 20) = exp (- 20)" "exp_f32 coarse32 (- 200) = 0"
proof -
  have m: "math_Exp coarse32 = exp"
    by (simp add: coarse32_def)
  show "exp_f32 coarse32 0 = 1" "exp_f32 coarse32 (- 20) = exp (- 20)"
    "exp_f32 coarse32 (- 200) = 0"
    unfolding exp_f32_def m by (simp_all add: coarse32_values)
qed

text \<open>
  C8, as stated, fails on a vector of one element: \<open>Softmax\<close> turns \<open>[0]\<close> into
  \<open>[1]\<close>, and 1 is not inside the open interval (0,1).
\<close>

theorem Softmax_single_counterexample:
  "sread (Softmax coarse32 [0] \<lparr>ptr = 0, len = 1, cap = 1\<rparr>) \<lparr>ptr = 0, len = 1, cap = 1\<rparr> = [1]
   \<and> \<not> (0 < sread (Softmax coarse32 [0] \<lparr>ptr = 0, len = 1, cap = 1\<rparr>) \<lparr>ptr = 0, len = 1, cap = 1\<rparr> ! 0
        \<and> sread (Softmax coarse32 [0] \<lparr>ptr = 0, len = 1, cap = 1\<rparr>) \<lparr>ptr = 0, len = 1, cap = 1\<rparr> ! 0 < 1)"
proof -
  have sp: "softmaxd coarse32 [0] \<lparr>ptr = 0, len = 1, cap = 1\<rparr> = 1"
    by (simp add: softmaxd_def coarse32_exp coarse32_values)
  have "Softmax coarse32 [0] \<lparr>ptr = 0, len = 1, cap = 1\<rparr> = [1]"
    unfolding Softmax_def sp by (simp add: coarse32_exp coarse32_values)
  then show ?thesis
    by (simp add: sread_def)
qed

text \<open>
  This does not depend on the arithmetic chosen for the example: with the properties of
  float32 arithmetic, every vector of one element whose exponential is positive becomes
  \<open>[1]\<close>.
\<close>

lemma Softmax_singleton:
  assumes fa: "float32_arith A u eta M" and "math_Exp A x \<le> M" and "0 < exp_f32 A x"
  shows "Softmax A [x] \<lparr>ptr = 0, len = 1, cap = 1\<rparr> = [1]"
proof -
  have e: "round32 A (exp_f32 A x) = exp_f32 A x"
    using exp_f32_range [OF fa assms(2)] by simp
  have r1: "round32 A 1 = 1"
    using fa by (simp add: float32_arith_def)
  have sp: "softmaxd A [x] \<lparr>ptr = 0, len = 1, cap = 1\<rparr> = exp_f32 A x"
    by (simp add: softmaxd_def e)
  show ?thesis
    unfolding Softmax_def sp using assms(3) by (simp add: r1)
qed

text \<open>
  With two elements both ends of the unit interval are still reached. On \<open>[0, -20]\<close>
  the sum \<open>1 + e^-20\<close> is rounded to 1, so the first output is exactly 1. On
  \<open>[0, -200]\<close> the exponential of the second element is rounded to 0, and so is the
  second output. When every exponential is rounded to 0 the sum is 0, and the code
  divides 0 by 0.
\<close>

lemma Softmax_rounds_to_one_example:
  "Softmax coarse32 [0, - 20] \<lparr>ptr = 0, len = 2, cap = 2\<rparr> = [1, exp (- 20)]"
proof -
  have sp: "softmaxd coarse32 [0, - 20] \<lparr>ptr = 0, len = 2, cap = 2\<rparr> = 1"
    by (simp add: softmaxd_def upt_2 coarse32_exp coarse32_values)
  show ?thesis
    by (simp add: Softmax_def sp upt_2 coarse32_exp coarse32_values)
qed

lemma Softmax_underflow_example:
  "Softmax coarse32 [0, - 200] \<lparr>ptr = 0, len = 2, cap = 2\<rparr> = [1, 0]"
proof -
  have sp: "softmaxd coarse32 [0, - 200] \<lparr>ptr = 0, len = 2, cap = 2\<rparr> = 1"
    by (simp add: softmaxd_def upt_2 coarse32_exp coarse32_values)
  show ?thesis
    by (simp add: Softmax_def sp upt_2 coarse32_exp coarse32_values)
qed

lemma softmaxd_zero_example:
  "softmaxd coarse32 [- 200] \<lparr>ptr = 0, len = 1, cap = 1\<rparr> = 0"
  by (simp add: softmaxd_def coarse32_exp coarse32_values)

text \<open>
  C8, amended. Take a non-empty vector on which the run does not overflow and on which
  not every exponential is rounded to 0. \<open>Softmax\<close> overwrites each element \<open>x\<close> in
  place by the rounded quotient of the rounded \<open>e^x\<close> by \<open>sp\<close>, the rounded running
  sum of the rounded \<open>e^y\<close> over the elements \<open>y\<close> of the original vector, and changes
  no other cell. Every output lies in the closed interval [0,1]. The outputs sum to 1
  within the tolerance of the roundings: for \<open>n\<close> elements the sum lies between
  \<open>(1 - u) / (1 + u)^n - n * eta\<close> and \<open>(1 + u) / (1 - u)^n + n * eta\<close>.
\<close>

theorem Softmax_float32:
  assumes fa: "float32_arith A u eta M"
    and v: "valid h xs" and ne: "0 < len xs"
    and ov: "no_overflow A M 0 (sread h xs)"
    and pos: "\<exists>x\<in>set (sread h xs). 0 < exp_f32 A x"
  shows "softmaxd A h xs = foldl (\<lambda>s x. round32 A (s + exp_f32 A x)) 0 (sread h xs)
     \<and> sread (Softmax A h xs) xs
         = map (\<lambda>x. round32 A (exp_f32 A x / softmaxd A h xs)) (sread h xs)
     \<and> length (Softmax A h xs) = length h
     \<and> (\<forall>a<length h. \<not> (ptr xs \<le> a \<and> a < ptr xs + len xs) \<longrightarrow> Softmax A h xs ! a = h ! a)
     \<and> (\<forall>y\<in>set (sread (Softmax A h xs) xs). 0 \<le> y \<and> y \<le> 1)
     \<and> (1 - u) / (1 + u) ^ len xs - real (len xs) * eta \<le> sum_list (sread (Softmax A h xs) xs)
     \<and> sum_list (sread (Softmax A h xs) xs) \<le> (1 + u) / (1 - u) ^ len xs + real (len xs) * eta"
proof -
  let ?v = "sread h xs"
  let ?sp = "softmaxd A h xs"
  let ?S = "\<Sum>x\<leftarrow>?v. exp_f32 A x"
  let ?n = "len xs"
  let ?out = "sread (Softmax A h xs) xs"
  have u: "0 \<le> u" "u < 1" and eta: "0 \<le> eta" and M: "1 \<le> M"
    and r0: "round32 A 0 = 0" and r1: "round32 A 1 = 1"
    using fa by (simp_all add: float32_arith_def)
  have mono: "\<And>a b. 0 \<le> a \<Longrightarrow> a \<le> b \<Longrightarrow> b \<le> M \<Longrightarrow> round32 A a \<le> round32 A b"
    using fa unfolding float32_arith_def by blast
  have err: "\<And>a. 0 \<le> a \<Longrightarrow> a \<le> M \<Longrightarrow> \<bar>round32 A a - a\<bar> \<le> u * a + eta"
    using fa unfolding float32_arith_def by blast
  have mem: "ptr xs + len xs \<le> length h"
    using v by (simp add: valid_def)
  then have lenv: "length ?v = ?n"
    by (simp add: sread_def)
  have sd: "?sp = foldl (\<lambda>s x. round32 A (s + exp_f32 A x)) 0 ?v"
    using mem by (rule softmaxd_foldl)
  have rs: "(\<forall>x\<in>set ?v. 0 \<le> exp_f32 A x \<and> exp_f32 A x \<le> ?sp)
     \<and> ?S * (1 - u) ^ ?n \<le> ?sp \<and> ?sp \<le> ?S * (1 + u) ^ ?n"
    using rounded_sum [OF fa _ r0 ov] unfolding sd lenv by simp
  have sp: "0 < ?sp"
    using pos rs by (meson less_le_trans)
  have pu: "0 < (1 + u) ^ ?n" and pl: "0 < (1 - u) ^ ?n"
    using u by simp_all
  have S: "0 < ?S"
  proof (rule ccontr)
    assume "\<not> 0 < ?S"
    then have "?S * (1 + u) ^ ?n \<le> 0"
      using pu by (simp add: mult_le_0_iff)
    then show False
      using rs sp by linarith
  qed
  have out: "?out = map (\<lambda>x. round32 A (exp_f32 A x / ?sp)) ?v"
    unfolding Softmax_eq using mem by (rule sread_upd_cells)
  have len: "length (Softmax A h xs) = length h"
    by (simp add: Softmax_eq length_upd_cells)
  have frame: "\<forall>a<length h. \<not> (ptr xs \<le> a \<and> a < ptr xs + len xs) \<longrightarrow> Softmax A h xs ! a = h ! a"
    by (auto simp add: Softmax_eq nth_upd_cells)
  have q: "0 \<le> exp_f32 A x / ?sp \<and> exp_f32 A x / ?sp \<le> 1" if "x \<in> set ?v" for x
    using that rs sp by simp
  have range: "\<forall>y\<in>set ?out. 0 \<le> y \<and> y \<le> 1"
  proof -
    have "0 \<le> round32 A (exp_f32 A x / ?sp) \<and> round32 A (exp_f32 A x / ?sp) \<le> 1"
      if "x \<in> set ?v" for x
    proof -
      have "round32 A 0 \<le> round32 A (exp_f32 A x / ?sp)"
        using q [OF that] M by (intro mono) simp_all
      moreover have "round32 A (exp_f32 A x / ?sp) \<le> round32 A 1"
        using q [OF that] M by (intro mono) simp_all
      ultimately show ?thesis
        using r0 r1 by simp
    qed
    then show ?thesis
      unfolding out by auto
  qed
  have ratio_hi: "?S / ?sp \<le> 1 / (1 - u) ^ ?n"
    using rs sp pl by (simp add: field_simps)
  have ratio_lo: "1 / (1 + u) ^ ?n \<le> ?S / ?sp"
    using rs sp pu by (simp add: field_simps)
  have qe: "\<bar>round32 A (exp_f32 A x / ?sp) - exp_f32 A x / ?sp\<bar> \<le> u * (exp_f32 A x / ?sp) + eta"
    if "x \<in> set ?v" for x
    using q [OF that] M by (intro err) simp_all
  have qhi: "round32 A (exp_f32 A x / ?sp) \<le> exp_f32 A x / ?sp * (1 + u) + eta"
    and qlo: "exp_f32 A x / ?sp * (1 - u) - eta \<le> round32 A (exp_f32 A x / ?sp)"
    if "x \<in> set ?v" for x
  proof -
    define q where "q = exp_f32 A x / ?sp"
    have "\<bar>round32 A q - q\<bar> \<le> u * q + eta"
      using qe [OF that] by (simp add: q_def)
    then have "round32 A q \<le> q * (1 + u) + eta" "q * (1 - u) - eta \<le> round32 A q"
      by (simp_all add: abs_le_iff algebra_simps)
    then show "round32 A (exp_f32 A x / ?sp) \<le> exp_f32 A x / ?sp * (1 + u) + eta"
      and "exp_f32 A x / ?sp * (1 - u) - eta \<le> round32 A (exp_f32 A x / ?sp)"
      by (simp_all add: q_def)
  qed
  have hi: "sum_list ?out \<le> (1 + u) / (1 - u) ^ ?n + real ?n * eta"
  proof -
    have "sum_list ?out \<le> (\<Sum>x\<leftarrow>?v. exp_f32 A x / ?sp * (1 + u) + eta)"
      unfolding out using qhi by (intro sum_list_mono) simp
    also have "\<dots> = (\<Sum>x\<leftarrow>?v. exp_f32 A x / ?sp) * (1 + u) + real (length ?v) * eta"
      by (rule sum_list_affine)
    also have "\<dots> = ?S / ?sp * (1 + u) + real ?n * eta"
      unfolding sum_list_divide lenv ..
    also have "\<dots> \<le> 1 / (1 - u) ^ ?n * (1 + u) + real ?n * eta"
    proof -
      have "?S / ?sp * (1 + u) \<le> 1 / (1 - u) ^ ?n * (1 + u)"
        by (rule mult_right_mono [OF ratio_hi]) (use u in simp)
      then show ?thesis
        by (rule add_right_mono)
    qed
    finally show ?thesis
      by simp
  qed
  have lo: "(1 - u) / (1 + u) ^ ?n - real ?n * eta \<le> sum_list ?out"
  proof -
    have "1 / (1 + u) ^ ?n * (1 - u) \<le> ?S / ?sp * (1 - u)"
      by (rule mult_right_mono [OF ratio_lo]) (use u in simp)
    then have "1 / (1 + u) ^ ?n * (1 - u) - real ?n * eta \<le> ?S / ?sp * (1 - u) - real ?n * eta"
      by (rule diff_right_mono)
    also have "\<dots> = (\<Sum>x\<leftarrow>?v. exp_f32 A x / ?sp) * (1 - u) - real (length ?v) * eta"
      unfolding sum_list_divide lenv ..
    also have "\<dots> = (\<Sum>x\<leftarrow>?v. exp_f32 A x / ?sp * (1 - u) - eta)"
      by (rule sum_list_affine_minus [symmetric])
    also have "\<dots> \<le> sum_list ?out"
      unfolding out using qlo by (intro sum_list_mono) simp
    finally show ?thesis
      by simp
  qed
  show ?thesis
    using sd out len frame range lo hi by blast
qed

theorem Softmax_float32_witness:
  "float32_arith coarse32 (1 / 2 ^ 24) (1 / 2 ^ 150) 2
   \<and> valid [0, - 200] \<lparr>ptr = 0, len = 2, cap = 2\<rparr>
   \<and> 0 < len \<lparr>ptr = 0, len = 2, cap = 2\<rparr>
   \<and> no_overflow coarse32 2 0 (sread [0, - 200] \<lparr>ptr = 0, len = 2, cap = 2\<rparr>)
   \<and> 0 \<in> set (sread [0, - 200] \<lparr>ptr = 0, len = 2, cap = 2\<rparr>)
   \<and> 0 < exp_f32 coarse32 0
   \<and> sread (Softmax coarse32 [0, - 200] \<lparr>ptr = 0, len = 2, cap = 2\<rparr>) \<lparr>ptr = 0, len = 2, cap = 2\<rparr>
       = [1, 0]
   \<and> (1 - 1 / 2 ^ 24) / (1 + 1 / 2 ^ 24) ^ 2 - 2 * (1 / 2 ^ 150) \<le> (1 :: real)
   \<and> (1 :: real) \<le> (1 + 1 / 2 ^ 24) / (1 - 1 / 2 ^ 24) ^ 2 + 2 * (1 / 2 ^ 150)"
proof -
  let ?s = "\<lparr>ptr = 0, len = 2, cap = 2\<rparr>"
  have v: "valid [0, - 200] ?s" by (simp add: valid_def)
  have n: "0 < len ?s" by simp
  have rd: "sread [0, - 200] ?s = [0, - 200]" by (simp add: sread_def)
  have m: "math_Exp coarse32 = exp"
    by (simp add: coarse32_def)
  have small: "exp (- 200 :: real) \<le> 2"
    using exp_minus_200 tiny_less_one by linarith
  have ov: "no_overflow coarse32 2 0 (sread [0, - 200] ?s)"
    unfolding rd using small by (simp add: coarse32_exp coarse32_values m)
  have pos: "\<exists>x\<in>set (sread [0, - 200] ?s). 0 < exp_f32 coarse32 x"
    unfolding rd by (simp add: coarse32_exp)
  note t = Softmax_float32 [OF coarse32_arith v n ov pos]
  have out: "sread (Softmax coarse32 [0, - 200] ?s) ?s = [1, 0]"
    by (simp add: Softmax_underflow_example sread_def)
  have lo: "(1 - 1 / 2 ^ 24) / (1 + 1 / 2 ^ 24) ^ 2 - 2 * (1 / 2 ^ 150) \<le> (1 :: real)"
    using t [THEN conjunct2, THEN conjunct2, THEN conjunct2, THEN conjunct2, THEN conjunct2,
        THEN conjunct1]
    unfolding out by simp
  have hi: "(1 :: real) \<le> (1 + 1 / 2 ^ 24) / (1 - 1 / 2 ^ 24) ^ 2 + 2 * (1 / 2 ^ 150)"
    using t [THEN conjunct2, THEN conjunct2, THEN conjunct2, THEN conjunct2, THEN conjunct2,
        THEN conjunct2]
    unfolding out by simp
  have e0: "0 < exp_f32 coarse32 0"
    by (simp add: coarse32_exp)
  have "0 \<in> set (sread [0, - 200] ?s)"
    unfolding rd by simp
  then show ?thesis
    using coarse32_arith v n ov e0 out lo hi by blast
qed

section \<open>InitWeights\<close>

lemma length_draws: "length (fst (draws f n r)) = n"
  by (induction n arbitrary: r) (simp_all add: split_beta)

lemma draws_add:
  "draws f (a + b) r =
     (case draws f a r of (xs, r1) \<Rightarrow> case draws f b r1 of (ys, r2) \<Rightarrow> (xs @ ys, r2))"
  by (induction a arbitrary: r) (simp_all split: prod.splits)

lemma InitWeights_biases_draws:
  "InitWeights_biases R bs r =
     (map (\<lambda>z. z / 64) (fst (draws (Rand_NormFloat64 R) (length bs) r)),
      snd (draws (Rand_NormFloat64 R) (length bs) r))"
  by (induction bs arbitrary: r) (simp_all split: prod.splits)

lemma InitWeights_row_draws:
  "InitWeights_row R fanIn fanOut row r =
     (map (\<lambda>u. (2 * u - 1) * xavier fanIn fanOut) (fst (draws (Rand_Float32 R) (length row) r)),
      snd (draws (Rand_Float32 R) (length row) r))"
  by (induction row arbitrary: r) (simp_all split: prod.splits)

lemma InitWeights_rows_draws:
  "map length (fst (InitWeights_rows R fanIn rows r)) = map length rows
   \<and> concat (fst (InitWeights_rows R fanIn rows r)) =
       map2 (\<lambda>u s. (2 * u - 1) * s) (fst (draws (Rand_Float32 R) (length (concat rows)) r))
         (concat (map (\<lambda>row. replicate (length row) (xavier fanIn (length row))) rows))
   \<and> snd (InitWeights_rows R fanIn rows r) = snd (draws (Rand_Float32 R) (length (concat rows)) r)"
proof (induction rows arbitrary: r)
  case Nil
  then show ?case by simp
next
  case (Cons row rows)
  let ?F = "Rand_Float32 R"
  let ?r1 = "snd (draws ?F (length row) r)"
  have m: "map (\<lambda>u. (2 * u - 1) * c) us = map2 (\<lambda>u s. (2 * u - 1) * s) us (replicate (length us) c)"
    for us :: "float32 list" and c
    by (induction us) simp_all
  show ?case
    using Cons.IH [of ?r1]
    by (simp add: InitWeights_row_draws draws_add split_beta length_draws m)
qed

lemma InitWeights_layers_draws:
  "map (map length) (fst (InitWeights_layers R ls r)) = map (map length) ls
   \<and> concat (map concat (fst (InitWeights_layers R ls r))) =
       map2 (\<lambda>u s. (2 * u - 1) * s)
         (fst (draws (Rand_Float32 R) (length (concat (map concat ls))) r))
         (concat (map scales ls))
   \<and> snd (InitWeights_layers R ls r) =
       snd (draws (Rand_Float32 R) (length (concat (map concat ls))) r)"
proof (induction ls arbitrary: r)
  case Nil
  then show ?case by simp
next
  case (Cons l ls)
  let ?F = "Rand_Float32 R"
  let ?r1 = "snd (draws ?F (length (concat l)) r)"
  have len: "length (concat (map (\<lambda>row. replicate (length row) (xavier (length l) (length row))) l))
      = length (concat l)"
    by (simp add: length_concat comp_def)
  show ?case
    using Cons.IH [of ?r1] InitWeights_rows_draws [of R "length l" l r]
    by (simp add: DenseLayer_InitWeights_def draws_add split_beta length_draws scales_def len)
qed

lemma InitWeights_rows_shape_only:
  "map length rows1 = map length rows2 \<Longrightarrow>
   InitWeights_rows R fanIn rows1 r = InitWeights_rows R fanIn rows2 r"
proof (induction rows1 arbitrary: rows2 r)
  case Nil
  then show ?case by simp
next
  case (Cons row rows1)
  then obtain row' rows' where r2: "rows2 = row' # rows'"
    and l: "length row = length row'" and m: "map length rows1 = map length rows'"
    by (cases rows2) auto
  show ?case
    using Cons.IH [OF m] l by (simp add: r2 InitWeights_row_draws split_beta)
qed

lemma InitWeights_layers_shape_only:
  "map (map length) ls1 = map (map length) ls2 \<Longrightarrow>
   InitWeights_layers R ls1 r = InitWeights_layers R ls2 r"
proof (induction ls1 arbitrary: ls2 r)
  case Nil
  then show ?case by simp
next
  case (Cons l ls1)
  then obtain l' ls' where r2: "ls2 = l' # ls'"
    and l: "map length l = map length l'" and m: "map (map length) ls1 = map (map length) ls'"
    by (cases ls2) auto
  have "length l = length l'"
    using l by (rule map_eq_imp_length_eq)
  then have "DenseLayer_InitWeights R l s = DenseLayer_InitWeights R l' s" for s
    using InitWeights_rows_shape_only [OF l] by (simp add: DenseLayer_InitWeights_def)
  then show ?case
    using Cons.IH [OF m] by (simp add: r2)
qed

lemma draws_set:
  "\<forall>s. P (fst (f s)) \<Longrightarrow> u \<in> set (fst (draws f n r)) \<Longrightarrow> P u"
  by (induction n arbitrary: r) (auto simp: split_beta)

lemma scales_rect:
  assumes "\<forall>row\<in>set l. length row = fanOut"
  shows "scales l = replicate (length l * fanOut) (xavier (length l) fanOut)"
proof -
  have "concat (map (\<lambda>row. replicate (length row) c) rows) = replicate (length rows * fanOut) c"
    if "\<forall>row\<in>set rows. length row = fanOut" for rows :: "float32 list list" and c :: float32
    using that by (induction rows) (simp_all add: replicate_add)
  then show ?thesis
    using assms unfolding scales_def
    by (metis (mono_tags, lifting) map_eq_conv)
qed

lemma length_concat_rect:
  "\<forall>row\<in>set l. length row = fanOut \<Longrightarrow> length (concat l) = length l * fanOut"
  by (induction l) simp_all

lemma map2_replicate:
  "length us = n \<Longrightarrow> map2 f us (replicate n c) = map (\<lambda>u. f u c) us"
  by (induction us arbitrary: n) auto

lemma xavier_bound:
  assumes "0 \<le> u" and "u < 1" and "0 \<le> (b :: real)"
  shows "- b \<le> (2 * u - 1) * b \<and> (2 * u - 1) * b \<le> b"
proof -
  have "(- 1) * b \<le> (2 * u - 1) * b"
    using assms by (intro mult_right_mono) simp_all
  moreover have "(2 * u - 1) * b \<le> 1 * b"
    using assms by (intro mult_right_mono) simp_all
  ultimately show ?thesis by simp
qed

lemma counter_source_unit:
  "0 \<le> fst (Rand_Float32 counter_source s) \<and> fst (Rand_Float32 counter_source s) < 1"
proof -
  have "s mod 4 < 4" by simp
  then have "real (s mod 4) < 4" by (simp only: of_nat_less_numeral_iff)
  then show ?thesis by (simp add: counter_source_def)
qed

text \<open>
  C5. For a layer of shape \<open>(fanIn, fanOut)\<close> with rows of equal length and a source
  whose uniform numbers lie in [0,1), \<open>DenseLayer.InitWeights\<close> keeps the shape and
  sets the weights, row by row, to \<open>(2u - 1) * sqrt(6 / (fanIn + fanOut))\<close> for the
  successive draws \<open>u\<close>; every weight lies between minus and plus
  \<open>sqrt(6 / (fanIn + fanOut))\<close>. (Exact arithmetic.)
\<close>

theorem DenseLayer_InitWeights_xavier:
  assumes "DenseLayer_Shape l = Inr (fanIn, fanOut)"
    and "\<forall>row\<in>set l. length row = fanOut"
    and "\<forall>s. 0 \<le> fst (Rand_Float32 R s) \<and> fst (Rand_Float32 R s) < 1"
  shows "map length (fst (DenseLayer_InitWeights R l r)) = map length l
     \<and> concat (fst (DenseLayer_InitWeights R l r)) =
         map (\<lambda>u. (2 * u - 1) * sqrt (6 / (real fanIn + real fanOut)))
           (fst (draws (Rand_Float32 R) (fanIn * fanOut) r))
     \<and> (\<forall>u\<in>set (fst (draws (Rand_Float32 R) (fanIn * fanOut) r)). 0 \<le> u \<and> u < 1)
     \<and> (\<forall>row\<in>set (fst (DenseLayer_InitWeights R l r)). \<forall>w\<in>set row.
           - sqrt (6 / (real fanIn + real fanOut)) \<le> w
           \<and> w \<le> sqrt (6 / (real fanIn + real fanOut)))"
proof -
  let ?b = "sqrt (6 / (real fanIn + real fanOut))"
  let ?us = "fst (draws (Rand_Float32 R) (fanIn * fanOut) r)"
  let ?l' = "fst (DenseLayer_InitWeights R l r)"
  have fi: "fanIn = length l"
    using assms(1) by (simp add: DenseLayer_Shape_Inr)
  have n: "length (concat l) = fanIn * fanOut"
    using assms(2) fi by (simp add: length_concat_rect)
  have sc: "concat (map (\<lambda>row. replicate (length row) (xavier (length l) (length row))) l)
      = replicate (fanIn * fanOut) ?b"
    using scales_rect [OF assms(2)] fi by (simp add: scales_def xavier_def sqrt_f32_def)
  have shape: "map length ?l' = map length l"
    using InitWeights_rows_draws [of R "length l" l r] by (simp add: DenseLayer_InitWeights_def)
  have "concat ?l' = map2 (\<lambda>u s. (2 * u - 1) * s) ?us (replicate (fanIn * fanOut) ?b)"
    using InitWeights_rows_draws [of R "length l" l r]
    by (simp add: DenseLayer_InitWeights_def n sc)
  then have flat: "concat ?l' = map (\<lambda>u. (2 * u - 1) * ?b) ?us"
    by (simp add: map2_replicate length_draws)
  have us: "\<forall>u\<in>set ?us. 0 \<le> u \<and> u < 1"
    using draws_set [where P = "\<lambda>u. 0 \<le> u \<and> u < 1", OF assms(3)] by blast
  have b: "0 \<le> ?b" by simp
  have "\<forall>w\<in>set (concat ?l'). - ?b \<le> w \<and> w \<le> ?b"
    unfolding flat using us xavier_bound [OF _ _ b] by auto
  then have bound: "\<forall>row\<in>set ?l'. \<forall>w\<in>set row. - ?b \<le> w \<and> w \<le> ?b"
    by auto
  show ?thesis
    using shape flat us bound by blast
qed

theorem DenseLayer_InitWeights_xavier_witness:
  "DenseLayer_Shape (NewDenseLayer 1 2) = Inr (1, 2)
   \<and> map length (NewDenseLayer 1 2) = [2]
   \<and> (\<forall>s. 0 \<le> fst (Rand_Float32 counter_source s) \<and> fst (Rand_Float32 counter_source s) < 1)
   \<and> concat (fst (DenseLayer_InitWeights counter_source (NewDenseLayer 1 2) 0))
       = [- sqrt 2, - (sqrt 2 / 2)]
   \<and> list_all (list_all (\<lambda>w. - sqrt 2 \<le> w \<and> w \<le> sqrt 2))
        (fst (DenseLayer_InitWeights counter_source (NewDenseLayer 1 2) 0))"
proof -
  let ?l = "NewDenseLayer 1 2"
  have l: "?l = [[0, 0]]" "NewDenseLayer (Suc 0) 2 = [[0, 0]]"
    by (simp_all add: NewDenseLayer_def eval_nat_numeral)
  have a1: "DenseLayer_Shape ?l = Inr (1, 2)"
    by (simp add: l DenseLayer_Shape_def index_def)
  have a2: "\<forall>row\<in>set ?l. length row = 2"
    by (simp add: l)
  have a3: "\<forall>s. 0 \<le> fst (Rand_Float32 counter_source s) \<and> fst (Rand_Float32 counter_source s) < 1"
    using counter_source_unit by blast
  note t = DenseLayer_InitWeights_xavier [OF a1 a2 a3, of 0]
  have n: "(1 :: nat) * 2 = Suc (Suc 0)" by simp
  have d: "fst (draws (Rand_Float32 counter_source) (Suc (Suc 0)) 0) = [0, 1 / 4]"
    by (simp add: counter_source_def)
  have "concat (fst (DenseLayer_InitWeights counter_source ?l 0)) = [- sqrt 2, - (sqrt 2 / 2)]"
    using t unfolding n d by simp
  moreover have "list_all (list_all (\<lambda>w. - sqrt 2 \<le> w \<and> w \<le> sqrt 2))
        (fst (DenseLayer_InitWeights counter_source ?l 0))"
    using t by (simp add: list_all_iff)
  ultimately show ?thesis
    using a1 a3 l by simp
qed

text \<open>
  C4. \<open>Model.InitWeights\<close> draws in a fixed order. With \<open>n\<close> the number of biases
  and \<open>N\<close> the number of weights of all layers: the biases are the first \<open>n\<close>
  standard-normal draws, each divided by 64; the weights, read layer by layer and row by
  row, are the next \<open>N\<close> uniform draws \<open>u\<close>, each turned into \<open>(2u - 1)\<close> times
  the Xavier factor of its cell; the source is left in the state after these draws. The
  result depends on the model only through its structure: two models with layers of
  the same shapes and the same number of biases get the same weights and biases from
  the same state of the source, and leave the source in the same state.
\<close>

theorem Model_InitWeights_deterministic:
  "(map (map length) (Layers m1) = map (map length) (Layers m2)
      \<and> length (Biases m1) = length (Biases m2) \<longrightarrow>
        Layers (fst (Model_InitWeights R m1 r)) = Layers (fst (Model_InitWeights R m2 r))
      \<and> Biases (fst (Model_InitWeights R m1 r)) = Biases (fst (Model_InitWeights R m2 r))
      \<and> snd (Model_InitWeights R m1 r) = snd (Model_InitWeights R m2 r))
   \<and> Biases (fst (Model_InitWeights R m r)) =
       map (\<lambda>z. z / 64) (fst (draws (Rand_NormFloat64 R) (length (Biases m)) r))
   \<and> map (map length) (Layers (fst (Model_InitWeights R m r))) = map (map length) (Layers m)
   \<and> concat (map concat (Layers (fst (Model_InitWeights R m r)))) =
       map2 (\<lambda>u s. (2 * u - 1) * s)
         (fst (draws (Rand_Float32 R) (length (concat (map concat (Layers m))))
                (snd (draws (Rand_NormFloat64 R) (length (Biases m)) r))))
         (concat (map scales (Layers m)))
   \<and> snd (Model_InitWeights R m r) =
       snd (draws (Rand_Float32 R) (length (concat (map concat (Layers m))))
              (snd (draws (Rand_NormFloat64 R) (length (Biases m)) r)))
   \<and> ActivFn (fst (Model_InitWeights R m r)) = ActivFn m"
proof -
  let ?r1 = "\<lambda>m. snd (draws (Rand_NormFloat64 R) (length (Biases m)) r)"
  have eq: "Model_InitWeights R m r =
      (m\<lparr>Layers := fst (InitWeights_layers R (Layers m) (?r1 m)),
          Biases := map (\<lambda>z. z / 64) (fst (draws (Rand_NormFloat64 R) (length (Biases m)) r))\<rparr>,
       snd (InitWeights_layers R (Layers m) (?r1 m)))" for m
    by (simp add: Model_InitWeights_def InitWeights_biases_draws split_beta)
  have det: "map (map length) (Layers m1) = map (map length) (Layers m2)
      \<and> length (Biases m1) = length (Biases m2) \<longrightarrow>
        Layers (fst (Model_InitWeights R m1 r)) = Layers (fst (Model_InitWeights R m2 r))
      \<and> Biases (fst (Model_InitWeights R m1 r)) = Biases (fst (Model_InitWeights R m2 r))
      \<and> snd (Model_InitWeights R m1 r) = snd (Model_InitWeights R m2 r)"
  proof
    assume a: "map (map length) (Layers m1) = map (map length) (Layers m2)
      \<and> length (Biases m1) = length (Biases m2)"
    then have "InitWeights_layers R (Layers m1) s = InitWeights_layers R (Layers m2) s" for s
      by (intro InitWeights_layers_shape_only) simp
    then show "Layers (fst (Model_InitWeights R m1 r)) = Layers (fst (Model_InitWeights R m2 r))
      \<and> Biases (fst (Model_InitWeights R m1 r)) = Biases (fst (Model_InitWeights R m2 r))
      \<and> snd (Model_InitWeights R m1 r) = snd (Model_InitWeights R m2 r)"
      using a by (simp add: eq)
  qed
  show ?thesis
    using det InitWeights_layers_draws [of R "Layers m" "?r1 m"] by (simp add: eq)
qed

theorem Model_InitWeights_deterministic_witness:
  "map (map length) (Layers (AddLayer \<lparr>Layers = [], Biases = [], ActivFn = []\<rparr> (NewDenseLayer 1 2) Ident))
     = map (map length) (Layers (AddLayer \<lparr>Layers = [], Biases = [], ActivFn = []\<rparr> [[3, 4]] LRelu))
   \<and> length (Biases (AddLayer \<lparr>Layers = [], Biases = [], ActivFn = []\<rparr> (NewDenseLayer 1 2) Ident))
     = length (Biases (AddLayer \<lparr>Layers = [], Biases = [], ActivFn = []\<rparr> [[3, 4]] LRelu))
   \<and> Layers (fst (Model_InitWeights counter_source
        (AddLayer \<lparr>Layers = [], Biases = [], ActivFn = []\<rparr> (NewDenseLayer 1 2) Ident) 0))
     = Layers (fst (Model_InitWeights counter_source
        (AddLayer \<lparr>Layers = [], Biases = [], ActivFn = []\<rparr> [[3, 4]] LRelu) 0))
   \<and> Biases (fst (Model_InitWeights counter_source
        (AddLayer \<lparr>Layers = [], Biases = [], ActivFn = []\<rparr> (NewDenseLayer 1 2) Ident) 0))
     = Biases (fst (Model_InitWeights counter_source
        (AddLayer \<lparr>Layers = [], Biases = [], ActivFn = []\<rparr> [[3, 4]] LRelu) 0))
   \<and> Biases (fst (Model_InitWeights counter_source
        (AddLayer \<lparr>Layers = [], Biases = [], ActivFn = []\<rparr> (NewDenseLayer 1 2) Ident) 0)) = [1 / 64]
   \<and> concat (map concat (Layers (fst (Model_InitWeights counter_source
        (AddLayer \<lparr>Layers = [], Biases = [], ActivFn = []\<rparr> (NewDenseLayer 1 2) Ident) 0))))
     = [0, sqrt 2 / 2]
   \<and> snd (Model_InitWeights counter_source
        (AddLayer \<lparr>Layers = [], Biases = [], ActivFn = []\<rparr> (NewDenseLayer 1 2) Ident) 0) = 4"
proof -
  let ?m1 = "AddLayer \<lparr>Layers = [], Biases = [], ActivFn = []\<rparr> (NewDenseLayer 1 2) Ident"
  let ?m2 = "AddLayer \<lparr>Layers = [], Biases = [], ActivFn = []\<rparr> [[3, 4]] LRelu"
  have l1: "Layers ?m1 = [[[0, 0]]]" "Biases ?m1 = [0]"
    by (simp_all add: AddLayer_def NewDenseLayer_def eval_nat_numeral)
  have l2: "Layers ?m2 = [[[3, 4]]]" "Biases ?m2 = [0]"
    by (simp_all add: AddLayer_def)
  have h: "map (map length) (Layers ?m1) = map (map length) (Layers ?m2)"
    "length (Biases ?m1) = length (Biases ?m2)"
    unfolding l1 l2 by simp_all
  note t = Model_InitWeights_deterministic [where R = counter_source and ?m1.0 = ?m1
      and ?m2.0 = ?m2 and m = ?m1 and r = 0]
  have sc: "scales [[0, 0]] = [sqrt 2, sqrt 2]"
    by (simp add: scales_def xavier_def sqrt_f32_def)
  note det = t [THEN conjunct1, THEN mp, OF conjI [OF h]]
  note bi = t [THEN conjunct2, THEN conjunct1]
  note fl = t [THEN conjunct2, THEN conjunct2, THEN conjunct2, THEN conjunct1]
  note sn = t [THEN conjunct2, THEN conjunct2, THEN conjunct2, THEN conjunct2, THEN conjunct1]
  have b: "Biases (fst (Model_InitWeights counter_source ?m1 0)) = [1 / 64]"
    using bi unfolding l1 by (simp add: counter_source_def)
  have c: "concat (map concat (Layers (fst (Model_InitWeights counter_source ?m1 0)))) = [0, sqrt 2 / 2]"
    using fl unfolding l1 by (simp add: counter_source_def sc)
  have e: "snd (Model_InitWeights counter_source ?m1 0) = 4"
    using sn unfolding l1 by (simp add: counter_source_def)
  show ?thesis
    using h det b c e by blast
qed

section \<open>Properties of Fixed8\<close>

text \<open>
  C7. For every stored int8 value \<open>s\<close> (every 8-bit pattern, read as a signed number
  between -128 and 127), decoding returns a value without any error case, the value is
  exactly \<open>s / 8\<close>, and it lies between -16 and 15.875. Both \<open>s\<close> and \<open>s / 8\<close>
  are float32 values, so neither the conversion nor the division rounds.
\<close>

theorem Float32_decode:
  "- 128 \<le> sint x \<and> sint x \<le> 127
   \<and> Fixed8_Float32 x = real_of_int (sint x) / 8
   \<and> float32_exact (real_of_int (sint x)) \<and> float32_exact (Fixed8_Float32 x)
   \<and> - 16 \<le> Fixed8_Float32 x \<and> Fixed8_Float32 x \<le> 15.875"
proof -
  have lo: "- 128 \<le> sint x"
    using sint_ge [of x] by simp
  have hi: "sint x \<le> 127"
    using sint_lt [of x] by simp
  have m: "\<bar>sint x\<bar> < 2 ^ 24"
    using lo hi by simp
  have "real_of_int (sint x) = real_of_int (sint x) / 2 ^ 0"
    by simp
  then have e0: "float32_exact (real_of_int (sint x))"
    unfolding float32_exact_def using m by (intro exI [of _ "sint x"] exI [of _ 0]) simp
  have "real_of_int (sint x) / 8 = real_of_int (sint x) / 2 ^ 3"
    by simp
  then have e3: "float32_exact (Fixed8_Float32 x)"
    unfolding float32_exact_def Fixed8_Float32_def using m
    by (intro exI [of _ "sint x"] exI [of _ 3]) simp
  have "real_of_int (- 128) \<le> real_of_int (sint x)"
    using lo by (rule of_int_le_iff [THEN iffD2])
  then have "- 16 \<le> real_of_int (sint x) / 8"
    by linarith
  moreover have "real_of_int (sint x) \<le> real_of_int 127"
    using hi by (rule of_int_le_iff [THEN iffD2])
  then have "real_of_int (sint x) / 8 \<le> 15.875"
    by simp
  ultimately show ?thesis
    using lo hi e0 e3 unfolding Fixed8_Float32_def by blast
qed

end
